theory Spec2Isabelle
  imports Main
begin

section \<open>The Date object\<close>

text \<open>
  \<^verbatim>\<open>App.tsx\<close> works on JavaScript \<^verbatim>\<open>Date\<close> objects through the built-in
  accessors (\<^verbatim>\<open>getFullYear\<close>, \<^verbatim>\<open>getMonth\<close>, \<^verbatim>\<open>getDate\<close>,
  \<^verbatim>\<open>setFullYear\<close>, \<^verbatim>\<open>setMonth\<close>, \<^verbatim>\<open>setDate\<close>, \<^verbatim>\<open>setHours\<close>) and
  through the functions it imports from the \<^verbatim>\<open>date-fns\<close> package. Neither is code of the
  repository, so both are modelled here from their published behaviour (ECMAScript's
  Date semantics and the sources of date-fns 3/4), on local wall-clock time: a date is
  its local calendar fields plus the milliseconds since local midnight. Time zones and
  daylight-saving shifts are outside the model, as is the finite range of time values.

  The fields are the values the getters return: \<open>year\<close> is \<^verbatim>\<open>getFullYear()\<close>,
  \<open>month\<close> is \<^verbatim>\<open>getMonth()\<close> (0 = January), \<open>day\<close> is \<^verbatim>\<open>getDate()\<close>.
\<close>

record date =
  year :: int
  month :: int
  day :: int
  tod :: int

definition isLeapYearIndex :: "int \<Rightarrow> bool" where
  "isLeapYearIndex y = (y mod 400 = 0 \<or> (y mod 4 = 0 \<and> y mod 100 \<noteq> 0))"

definition daysInMonth :: "int \<Rightarrow> int \<Rightarrow> int" where
  "daysInMonth y m =
     (if m = 1 then (if isLeapYearIndex y then 29 else 28)
      else if m = 3 \<or> m = 5 \<or> m = 8 \<or> m = 10 then 30
      else 31)"

definition valid_date :: "date \<Rightarrow> bool" where
  "valid_date t =
     (0 \<le> month t \<and> month t \<le> 11 \<and> 1 \<le> day t \<and> day t \<le> daysInMonth (year t) (month t)
      \<and> 0 \<le> tod t \<and> tod t < 86400000)"

subsection \<open>Day numbers and weekdays (ECMAScript: DayFromYear, Day, WeekDay)\<close>

definition DayFromYear :: "int \<Rightarrow> int" where
  "DayFromYear y =
     365 * (y - 1970) + (y - 1969) div 4 - (y - 1901) div 100 + (y - 1601) div 400"

definition daysBeforeMonth :: "int \<Rightarrow> int \<Rightarrow> int" where
  "daysBeforeMonth y m = sum_list (map (daysInMonth y) [0..m - 1])"

definition dayNumber :: "date \<Rightarrow> int" where
  "dayNumber t = DayFromYear (year t) + daysBeforeMonth (year t) (month t) + day t - 1"

definition timeValue :: "date \<Rightarrow> int" where
  "timeValue t = dayNumber t * 86400000 + tod t"

definition getDay :: "date \<Rightarrow> int" where
  "getDay t = (dayNumber t + 4) mod 7"

subsection \<open>Setters: out-of-range fields roll over (ECMAScript: MakeDay)\<close>

definition next_month :: "int \<Rightarrow> int \<Rightarrow> int \<times> int" where
  "next_month y m = (if m = 11 then (y + 1, 0) else (y, m + 1))"

definition prev_month :: "int \<Rightarrow> int \<Rightarrow> int \<times> int" where
  "prev_month y m = (if m = 0 then (y - 1, 11) else (y, m - 1))"

function roll_forward :: "int \<Rightarrow> int \<Rightarrow> int \<Rightarrow> int \<times> int \<times> int" where
  "roll_forward y m d =
     (if daysInMonth y m < d
      then (case next_month y m of (y', m') \<Rightarrow> roll_forward y' m' (d - daysInMonth y m))
      else (y, m, d))"
  by pat_completeness auto
termination
  by (relation "measure (\<lambda>(y, m, d). nat d)") (auto simp: daysInMonth_def split: if_splits)

function roll_backward :: "int \<Rightarrow> int \<Rightarrow> int \<Rightarrow> int \<times> int \<times> int" where
  "roll_backward y m d =
     (if d < 1
      then (case prev_month y m of (y', m') \<Rightarrow> roll_backward y' m' (d + daysInMonth y' m'))
      else (y, m, d))"
  by pat_completeness auto
termination
  by (relation "measure (\<lambda>(y, m, d). nat (1 - d))") (auto simp: daysInMonth_def split: if_splits)

definition MakeDay :: "int \<Rightarrow> int \<Rightarrow> int \<Rightarrow> int \<times> int \<times> int" where
  "MakeDay y m d =
     (let ym = y + m div 12; mn = m mod 12
      in if d < 1 then roll_backward ym mn d else roll_forward ym mn d)"

definition with_fields :: "date \<Rightarrow> int \<times> int \<times> int \<Rightarrow> date" where
  "with_fields t f = (case f of (y, m, d) \<Rightarrow> t\<lparr>year := y, month := m, day := d\<rparr>)"

definition setDate :: "date \<Rightarrow> int \<Rightarrow> date" where
  "setDate t d = with_fields t (MakeDay (year t) (month t) d)"

definition setMonth :: "date \<Rightarrow> int \<Rightarrow> date" where
  "setMonth t m = with_fields t (MakeDay (year t) m (day t))"

definition setMonth2 :: "date \<Rightarrow> int \<Rightarrow> int \<Rightarrow> date" where
  "setMonth2 t m d = with_fields t (MakeDay (year t) m d)"

definition setFullYear :: "date \<Rightarrow> int \<Rightarrow> date" where
  "setFullYear t y = with_fields t (MakeDay y (month t) (day t))"

definition setFullYear3 :: "date \<Rightarrow> int \<Rightarrow> int \<Rightarrow> int \<Rightarrow> date" where
  "setFullYear3 t y m d = with_fields t (MakeDay y m d)"

definition setHours0 :: "date \<Rightarrow> date" where
  "setHours0 t = t\<lparr>tod := 0\<rparr>"

section \<open>date-fns: differences between dates\<close>

definition sign_of :: "int \<Rightarrow> int" where
  "sign_of x = (if x < 0 then - 1 else if 0 < x then 1 else 0)"

definition compareAsc :: "date \<Rightarrow> date \<Rightarrow> int" where
  "compareAsc a b = sign_of (timeValue a - timeValue b)"

definition compareLocalAsc :: "date \<Rightarrow> date \<Rightarrow> int" where
  "compareLocalAsc a b =
     sign_of (if year a \<noteq> year b then year a - year b
              else if month a \<noteq> month b then month a - month b
              else if day a \<noteq> day b then day a - day b
              else tod a - tod b)"

definition differenceInCalendarYears :: "date \<Rightarrow> date \<Rightarrow> int" where
  "differenceInCalendarYears a b = year a - year b"

definition differenceInCalendarMonths :: "date \<Rightarrow> date \<Rightarrow> int" where
  "differenceInCalendarMonths a b = (year a - year b) * 12 + (month a - month b)"

definition differenceInCalendarDays :: "date \<Rightarrow> date \<Rightarrow> int" where
  "differenceInCalendarDays a b = dayNumber a - dayNumber b"

definition isLastDayOfMonth :: "date \<Rightarrow> bool" where
  "isLastDayOfMonth t = (day t = daysInMonth (year t) (month t))"

definition differenceInYears :: "date \<Rightarrow> date \<Rightarrow> int" where
  "differenceInYears laterDate earlierDate =
     (let sign = compareAsc laterDate earlierDate;
          diff = \<bar>differenceInCalendarYears laterDate earlierDate\<bar>;
          l = setFullYear laterDate 1584;
          e = setFullYear earlierDate 1584;
          partial = (compareAsc l e = - sign)
      in sign * (diff - (if partial then 1 else 0)))"

definition differenceInMonths :: "date \<Rightarrow> date \<Rightarrow> int" where
  "differenceInMonths laterDate earlierDate =
     (let sign = compareAsc laterDate earlierDate;
          difference = \<bar>differenceInCalendarMonths laterDate earlierDate\<bar>
      in if difference < 1 then 0
         else
           (let w0 = (if month laterDate = 1 \<and> 27 < day laterDate
                      then setDate laterDate 30 else laterDate);
                w = setMonth w0 (month w0 - sign * difference);
                isLastMonthNotFull0 = (compareAsc w earlierDate = - sign);
                isLastMonthNotFull =
                  (if isLastDayOfMonth laterDate \<and> difference = 1
                      \<and> compareAsc laterDate earlierDate = 1
                   then False else isLastMonthNotFull0)
            in sign * (difference - (if isLastMonthNotFull then 1 else 0))))"

definition differenceInDays :: "date \<Rightarrow> date \<Rightarrow> int" where
  "differenceInDays laterDate earlierDate =
     (let sign = compareLocalAsc laterDate earlierDate;
          difference = \<bar>differenceInCalendarDays laterDate earlierDate\<bar>;
          l = setDate laterDate (day laterDate - sign * difference);
          isLastDayNotFull = (if compareLocalAsc l earlierDate = - sign then 1 else 0)
      in sign * (difference - isLastDayNotFull))"

definition trunc_div :: "int \<Rightarrow> int \<Rightarrow> int" where
  "trunc_div a b = sign_of a * sign_of b * (\<bar>a\<bar> div \<bar>b\<bar>)"

definition differenceInWeeks :: "date \<Rightarrow> date \<Rightarrow> int" where
  "differenceInWeeks laterDate earlierDate = trunc_div (differenceInDays laterDate earlierDate) 7"

section \<open>App: the period between the selected date and today\<close>

record period =
  years :: int
  months :: int
  days :: int
  weeks :: int
  totalDays :: int

definition remainingAfterYears :: "date \<Rightarrow> date \<Rightarrow> date" where
  "remainingAfterYears today selectedDate =
     setFullYear selectedDate (year selectedDate + differenceInYears today selectedDate)"

definition remainingAfterMonths :: "date \<Rightarrow> date \<Rightarrow> date" where
  "remainingAfterMonths today selectedDate =
     (let r = remainingAfterYears today selectedDate
      in setMonth r (month r + differenceInMonths today r))"

definition period_between :: "date \<Rightarrow> date \<Rightarrow> period" where
  "period_between today selectedDate =
     \<lparr> years = differenceInYears today selectedDate,
       months = differenceInMonths today (remainingAfterYears today selectedDate),
       days = differenceInDays today (remainingAfterMonths today selectedDate),
       weeks = differenceInWeeks today selectedDate,
       totalDays = differenceInDays today selectedDate \<rparr>"

definition app_period :: "date \<Rightarrow> date \<Rightarrow> period" where
  "app_period now selectedDate = period_between (setHours0 now) selectedDate"

section \<open>Characters and numerals of strings\<close>

text \<open>
  Strings are lists of 8-bit characters. The regular-expression classes of the library
  are ASCII classes: \<^verbatim>\<open>\d\<close> is 0-9, \<^verbatim>\<open>\w\<close> is a letter, a digit or the underscore.
  White space (what \<^verbatim>\<open>String.prototype.trim\<close> strips and \<^verbatim>\<open>\S\<close> excludes) is
  tab, line feed, vertical tab, form feed, carriage return, space and the no-break space.
\<close>

definition is_digit :: "char \<Rightarrow> bool" where
  "is_digit c = (c \<in> set ''0123456789'')"

definition is_latin_letter :: "char \<Rightarrow> bool" where
  "is_latin_letter c =
     (c \<in> set ''abcdefghijklmnopqrstuvwxyz'' \<or> c \<in> set ''ABCDEFGHIJKLMNOPQRSTUVWXYZ'')"

definition is_word_char :: "char \<Rightarrow> bool" where
  "is_word_char c = (is_latin_letter c \<or> is_digit c \<or> c = CHR ''_'')"

definition is_whitespace :: "char \<Rightarrow> bool" where
  "is_whitespace c =
     (c = CHR '' '' \<or> c = CHR 0x09 \<or> c = CHR 0x0A \<or> c = CHR 0x0B \<or> c = CHR 0x0C
      \<or> c = CHR 0x0D \<or> c = CHR 0xA0)"

definition trim :: "string \<Rightarrow> string" where
  "trim s = rev (dropWhile is_whitespace (rev (dropWhile is_whitespace s)))"

definition lower :: "char \<Rightarrow> char" where
  "lower c =
     (case map_of (zip ''ABCDEFGHIJKLMNOPQRSTUVWXYZ'' ''abcdefghijklmnopqrstuvwxyz'') c of
        None \<Rightarrow> c | Some l \<Rightarrow> l)"

definition digit_val :: "char \<Rightarrow> nat" where
  "digit_val c = length (takeWhile (\<lambda>x. x \<noteq> c) ''0123456789'')"

definition digit_char :: "nat \<Rightarrow> char" where
  "digit_char n = ''0123456789'' ! n"

definition parseInt :: "string \<Rightarrow> int" where
  "parseInt s = int (foldl (\<lambda>a c. 10 * a + digit_val c) 0 s)"

fun string_of_nat :: "nat \<Rightarrow> string" where
  "string_of_nat n =
     (if n < 10 then [digit_char n] else string_of_nat (n div 10) @ [digit_char (n mod 10)])"

definition addLeadingZeros :: "int \<Rightarrow> nat \<Rightarrow> string" where
  "addLeadingZeros n targetLength =
     (let output = string_of_nat (nat \<bar>n\<bar>)
      in (if n < 0 then [CHR ''-''] else [])
         @ replicate (targetLength - length output) (CHR ''0'') @ output)"

section \<open>date-fns: format tokens\<close>

text \<open>
  Both \<^verbatim>\<open>parse\<close> and \<^verbatim>\<open>format\<close> split the format string with the expression
  \<^verbatim>\<open>/[yYQqMLwIdDecihHKkms]o|(\w)\1*|''|'(''|[^'])+('|$)|./g\<close>: an ordinal token, a run
  of one repeated word character, a quoted literal, or any single character but a line
  break (which no alternative matches, so it is skipped). The model splits a quote off
  as a token of its own, which \<open>token_kind_of\<close> then reports as not modelled.

  Of the tokens, the model covers the six that \<^verbatim>\<open>DATE_FORMATS\<close> uses
  (\<^verbatim>\<open>d dd M MM MMMM yyyy\<close>) and literal characters. A letter for which the library has
  no parser or formatter raises \<^verbatim>\<open>RangeError\<close>, as does a second token with the letter
  of an earlier one. Every other token for which the library has a parser or formatter
  (the long formats \<^verbatim>\<open>P\<close> and \<^verbatim>\<open>p\<close> among them), and a quoted literal, is outside
  the model and reported as \<open>Unmodelled\<close>.
\<close>

datatype js_error = RangeError | Unmodelled

function tokenize :: "string \<Rightarrow> string list" where
  "tokenize [] = []"
| "tokenize (c # cs) =
     (if c \<in> set ''yYQqMLwIdDecihHKkms'' \<and> take 1 cs = ''o''
      then [c, CHR ''o''] # tokenize (drop 1 cs)
      else if is_word_char c
      then (c # takeWhile (\<lambda>x. x = c) cs) # tokenize (dropWhile (\<lambda>x. x = c) cs)
      else if c = CHR 0x0A \<or> c = CHR 0x0D then tokenize cs
      else [c] # tokenize cs)"
  by pat_completeness auto
termination
  by (relation "measure length") (auto simp: less_Suc_eq_le length_dropWhile_le)

datatype token_kind = Modelled | Literal | NoParser | NotModelled

definition token_kind_of :: "string \<Rightarrow> token_kind" where
  "token_kind_of t =
     (if t \<in> set [''d'', ''dd'', ''M'', ''MM'', ''MMMM'', ''yyyy''] then Modelled
      else if take 1 t = [CHR 0x27] then NotModelled
      else if \<exists>c \<in> set (take 1 t). c \<in> set ''GyYRuQqMLwIdDEeciabBhHKkmsSXxtTPp'' then NotModelled
      else if \<exists>c \<in> set (take 1 t). is_latin_letter c then NoParser
      else Literal)"

section \<open>date-fns: the Romanian locale's month names\<close>

definition ro_month_wide :: "string list" where
  "ro_month_wide =
     [''ianuarie'', ''februarie'', ''martie'', ''aprilie'', ''mai'', ''iunie'', ''iulie'',
      ''august'', ''septembrie'', ''octombrie'', ''noiembrie'', ''decembrie'']"

definition ro_month_abbreviated :: "string list" where
  "ro_month_abbreviated =
     [''ian'', ''feb'', ''mar'', ''apr'', ''mai'', ''iun'', ''iul'', ''aug'', ''sep'', ''oct'',
      ''noi'', ''dec'']"

definition ro_month_narrow :: "string list" where
  "ro_month_narrow = [''i'', ''f'', ''m'', ''a'', ''a'', ''s'', ''o'', ''n'', ''d'']"

definition ro_parse_month_narrow :: "string list" where
  "ro_parse_month_narrow =
     [''i'', ''f'', ''m'', ''a'', ''m'', ''i'', ''i'', ''a'', ''s'', ''o'', ''n'', ''d'']"

definition ro_parse_month_any :: "string list" where
  "ro_parse_month_any =
     [''ia'', ''f'', ''mar'', ''ap'', ''mai'', ''iun'', ''iul'', ''au'', ''s'', ''o'', ''n'', ''d'']"

datatype width = Wide | Abbreviated | Narrow

text \<open>\<open>ci_prefix p s\<close>: the case-insensitive expression \<^verbatim>\<open>/^p/i\<close> matches \<open>s\<close>
  (\<open>p\<close> in lower case).\<close>

fun ci_prefix :: "string \<Rightarrow> string \<Rightarrow> bool" where
  "ci_prefix [] s = True"
| "ci_prefix (p # ps) [] = False"
| "ci_prefix (p # ps) (c # cs) = (lower c = p \<and> ci_prefix ps cs)"

text \<open>An alternation \<^verbatim>\<open>/^(a|b|...)/i\<close> matches with its first alternative that fits; the
  result is the matched text.\<close>

definition match_alternatives :: "string list \<Rightarrow> string \<Rightarrow> string option" where
  "match_alternatives alts s =
     (case find (\<lambda>w. ci_prefix w s) alts of
        None \<Rightarrow> None
      | Some w \<Rightarrow> Some (take (length w) s))"

text \<open>\<^verbatim>\<open>findIndex\<close> returns \<^verbatim>\<open>undefined\<close> when no element fits; \<open>- 1\<close> stands for it
  (both fail the month parser's \<^verbatim>\<open>validate\<close>).\<close>

fun findIndex :: "('a \<Rightarrow> bool) \<Rightarrow> 'a list \<Rightarrow> int" where
  "findIndex P [] = - 1"
| "findIndex P (x # xs) =
     (if P x then 0 else (let k = findIndex P xs in if k < 0 then - 1 else k + 1))"

definition ro_match_month :: "width \<Rightarrow> string \<Rightarrow> (int \<times> string) option" where
  "ro_match_month w s =
     (let matchPattern = (case w of Wide \<Rightarrow> ro_month_wide
                          | Abbreviated \<Rightarrow> ro_month_abbreviated
                          | Narrow \<Rightarrow> ro_month_narrow);
          parsePatterns = (case w of Narrow \<Rightarrow> ro_parse_month_narrow
                           | _ \<Rightarrow> ro_parse_month_any)
      in case match_alternatives matchPattern s of
           None \<Rightarrow> None
         | Some matchedString \<Rightarrow>
             Some (findIndex (\<lambda>p. ci_prefix p matchedString) parsePatterns,
                   drop (length matchedString) s))"

section \<open>date-fns: parse\<close>

text \<open>\<^verbatim>\<open>parseNDigits(n, s)\<close> for \<open>n \<le> 4\<close>: the expression \<^verbatim>\<open>/^\d{1,n}/\<close>.\<close>

definition parseNDigits :: "nat \<Rightarrow> string \<Rightarrow> (int \<times> string) option" where
  "parseNDigits n s =
     (let m = takeWhile is_digit (take n s)
      in if m = [] then None else Some (parseInt m, drop (length m) s))"

text \<open>\<^verbatim>\<open>numericPatterns.date\<close> is \<^verbatim>\<open>/^(3[0-1]|[0-2]?\d)/\<close> and
  \<^verbatim>\<open>numericPatterns.month\<close> is \<^verbatim>\<open>/^(1[0-2]|0?\d)/\<close>.\<close>

fun match_date_pattern :: "string \<Rightarrow> string option" where
  "match_date_pattern (a # b # cs) =
     (if a = CHR ''3'' \<and> b \<in> set ''01'' then Some [a, b]
      else if a \<in> set ''012'' \<and> is_digit b then Some [a, b]
      else if is_digit a then Some [a] else None)"
| "match_date_pattern [a] = (if is_digit a then Some [a] else None)"
| "match_date_pattern [] = None"

fun match_month_pattern :: "string \<Rightarrow> string option" where
  "match_month_pattern (a # b # cs) =
     (if a = CHR ''1'' \<and> b \<in> set ''012'' then Some [a, b]
      else if a = CHR ''0'' \<and> is_digit b then Some [a, b]
      else if is_digit a then Some [a] else None)"
| "match_month_pattern [a] = (if is_digit a then Some [a] else None)"
| "match_month_pattern [] = None"

definition parseNumericPattern :: "(string \<Rightarrow> string option) \<Rightarrow> string \<Rightarrow> (int \<times> string) option" where
  "parseNumericPattern pattern s =
     (case pattern s of
        None \<Rightarrow> None
      | Some m \<Rightarrow> Some (parseInt m, drop (length m) s))"

datatype setter = YearSetter int | MonthSetter int | DateSetter int

fun priority :: "setter \<Rightarrow> int" where
  "priority (YearSetter v) = 130"
| "priority (MonthSetter v) = 110"
| "priority (DateSetter v) = 90"

definition mapValue :: "('a \<Rightarrow> 'b) \<Rightarrow> ('a \<times> string) option \<Rightarrow> ('b \<times> string) option" where
  "mapValue f r = (case r of None \<Rightarrow> None | Some (v, rest) \<Rightarrow> Some (f v, rest))"

text \<open>The parsers of the modelled tokens (\<^verbatim>\<open>YearParser\<close>, \<^verbatim>\<open>MonthParser\<close>,
  \<^verbatim>\<open>DateParser\<close>): \<open>None\<close> when the text does not fit.\<close>

definition run_parser :: "string \<Rightarrow> string \<Rightarrow> (setter \<times> string) option" where
  "run_parser t s =
     (if t = ''yyyy'' then mapValue YearSetter (parseNDigits 4 s)
      else if t = ''M'' then
        mapValue (\<lambda>v. MonthSetter (v - 1)) (parseNumericPattern match_month_pattern s)
      else if t = ''MM'' then mapValue (\<lambda>v. MonthSetter (v - 1)) (parseNDigits 2 s)
      else if t = ''MMMM'' then
        mapValue MonthSetter
          (case ro_match_month Wide s of
             Some r \<Rightarrow> Some r
           | None \<Rightarrow>
               (case ro_match_month Abbreviated s of
                  Some r \<Rightarrow> Some r
                | None \<Rightarrow> ro_match_month Narrow s))
      else if t = ''d'' then mapValue DateSetter (parseNumericPattern match_date_pattern s)
      else if t = ''dd'' then mapValue DateSetter (parseNDigits 2 s)
      else None)"

definition DAYS_IN_MONTH :: "int list" where
  "DAYS_IN_MONTH = [31, 28, 31, 30, 31, 30, 31, 31, 30, 31, 30, 31]"

definition DAYS_IN_MONTH_LEAP_YEAR :: "int list" where
  "DAYS_IN_MONTH_LEAP_YEAR = [31, 29, 31, 30, 31, 30, 31, 31, 30, 31, 30, 31]"

fun validate :: "date \<Rightarrow> setter \<Rightarrow> bool" where
  "validate t (YearSetter v) = (0 < v)"
| "validate t (MonthSetter v) = (0 \<le> v \<and> v \<le> 11)"
| "validate t (DateSetter v) =
     (if isLeapYearIndex (year t)
      then 1 \<le> v \<and> v \<le> DAYS_IN_MONTH_LEAP_YEAR ! nat (month t)
      else 1 \<le> v \<and> v \<le> DAYS_IN_MONTH ! nat (month t))"

fun set_field :: "date \<Rightarrow> setter \<Rightarrow> date" where
  "set_field t (YearSetter v) = setHours0 (setFullYear3 t v 0 1)"
| "set_field t (MonthSetter v) = setHours0 (setMonth2 t v 1)"
| "set_field t (DateSetter v) = setHours0 (setDate t v)"

text \<open>The token loop: \<open>used\<close> holds the letters of the tokens read so far, \<open>acc\<close> the
  setters. \<open>Inr None\<close> is the early \<^verbatim>\<open>return invalidDate()\<close>.\<close>

fun parse_tokens ::
  "string list \<Rightarrow> string \<Rightarrow> string \<Rightarrow> setter list \<Rightarrow> js_error + setter list option" where
  "parse_tokens [] used s acc =
     (if \<exists>c \<in> set s. \<not> is_whitespace c then Inr None else Inr (Some acc))"
| "parse_tokens (t # ts) used s acc =
     (case token_kind_of t of
        NotModelled \<Rightarrow> Inl Unmodelled
      | NoParser \<Rightarrow> Inl RangeError
      | Modelled \<Rightarrow>
          (if \<exists>c \<in> set (take 1 t). c \<in> set used then Inl RangeError
           else (case run_parser t s of
                   None \<Rightarrow> Inr None
                 | Some (st, rest) \<Rightarrow> parse_tokens ts (take 1 t @ used) rest (acc @ [st])))
      | Literal \<Rightarrow>
          (if take (length t) s = t then parse_tokens ts used (drop (length t) s) acc
           else Inr None))"

text \<open>The setters run from the highest priority down, each validated against the date
  the earlier ones left. (The library's first setter, which moves the result into the
  system time zone, has the lowest priority and is the identity on wall-clock time.)\<close>

fun apply_setters :: "setter list \<Rightarrow> date \<Rightarrow> date option" where
  "apply_setters [] t = Some t"
| "apply_setters (st # sts) t =
     (if validate t st then apply_setters sts (set_field t st) else None)"

text \<open>\<^verbatim>\<open>parse(dateStr, formatStr, referenceDate, { locale: ro })\<close>. The result
  \<open>Inr None\<close> is the Invalid Date, which \<^verbatim>\<open>isValid\<close> rejects.\<close>

definition parse :: "string \<Rightarrow> string \<Rightarrow> date \<Rightarrow> js_error + date option" where
  "parse dateStr formatStr referenceDate =
     (if formatStr = [] then (if dateStr \<noteq> [] then Inr None else Inr (Some referenceDate))
      else (case parse_tokens (tokenize formatStr) [] dateStr [] of
              Inl e \<Rightarrow> Inl e
            | Inr None \<Rightarrow> Inr None
            | Inr (Some setters) \<Rightarrow>
                Inr (apply_setters (sort_key (\<lambda>st. - priority st) setters) referenceDate)))"

definition isValid :: "date option \<Rightarrow> bool" where
  "isValid parsed = (parsed \<noteq> None)"

section \<open>date-fns: format\<close>

text \<open>\<^verbatim>\<open>format(date, formatStr, { locale: ro })\<close> for a valid date. The formatters are
  those of the parsers' letters and of \<^verbatim>\<open>O\<close> and \<^verbatim>\<open>z\<close>; only \<^verbatim>\<open>MMMM\<close> reads the
  locale, so the result for a numeric pattern is that of every locale.\<close>

definition format_token :: "date \<Rightarrow> string \<Rightarrow> js_error + string" where
  "format_token t tok =
     (if tok = ''yyyy''
        then Inr (addLeadingZeros (if 0 < year t then year t else 1 - year t) 4)
      else if tok = ''M'' then Inr (string_of_nat (nat (month t + 1)))
      else if tok = ''MM'' then Inr (addLeadingZeros (month t + 1) 2)
      else if tok = ''MMMM'' then Inr (ro_month_wide ! nat (month t))
      else if tok = ''d'' then Inr (addLeadingZeros (day t) 1)
      else if tok = ''dd'' then Inr (addLeadingZeros (day t) 2)
      else if \<exists>c \<in> set (take 1 tok). c \<in> set ''Oz'' then Inl Unmodelled
      else (case token_kind_of tok of
              Literal \<Rightarrow> Inr tok
            | NoParser \<Rightarrow> Inl RangeError
            | _ \<Rightarrow> Inl Unmodelled))"

fun format_tokens :: "date \<Rightarrow> string list \<Rightarrow> js_error + string" where
  "format_tokens t [] = Inr []"
| "format_tokens t (tok # toks) =
     (case format_token t tok of
        Inl e \<Rightarrow> Inl e
      | Inr a \<Rightarrow> (case format_tokens t toks of Inl e \<Rightarrow> Inl e | Inr b \<Rightarrow> Inr (a @ b)))"

definition format :: "date \<Rightarrow> string \<Rightarrow> js_error + string" where
  "format t formatStr = format_tokens t (tokenize formatStr)"

section \<open>App: the flexible date parser\<close>

definition DATE_FORMATS :: "string list" where
  "DATE_FORMATS =
     [''dd.MM.yyyy'', ''dd-MM-yyyy'', ''dd/MM/yyyy'', ''d.M.yyyy'', ''d-M-yyyy'', ''d/M/yyyy'',
      ''dd MMMM yyyy'', ''d MMMM yyyy'', ''yyyy-MM-dd'', ''yyyy/MM/dd'']"

text \<open>
  The loop of \<^verbatim>\<open>parseFlexibleDate\<close> over a list of formats. Every iteration reads the
  clock (\<^verbatim>\<open>new Date()\<close>) for the reference date: \<open>clock i\<close> is the reading of iteration
  \<open>i\<close>. The first component of the result lists the calls of \<^verbatim>\<open>parse\<close> made, as
  (text, format) pairs; the second is what the function returns (\<open>Inr None\<close> for
  \<^verbatim>\<open>null\<close>) or the exception that leaves it.
\<close>

fun parse_loop ::
  "(nat \<Rightarrow> date) \<Rightarrow> nat \<Rightarrow> string list \<Rightarrow> string
     \<Rightarrow> (string \<times> string) list \<times> (js_error + date option)" where
  "parse_loop clock i [] v = ([], Inr None)"
| "parse_loop clock i (f # fs) v =
     (case parse v f (clock i) of
        Inl e \<Rightarrow> ([(v, f)], Inl e)
      | Inr parsed \<Rightarrow>
          if isValid parsed then ([(v, f)], Inr parsed)
          else (case parse_loop clock (i + 1) fs v of (calls, r) \<Rightarrow> ((v, f) # calls, r)))"

text \<open>A clock that stands still: every reading is \<open>t\<close>.\<close>

definition clock_at :: "date \<Rightarrow> nat \<Rightarrow> date" where
  "clock_at t i = t"

definition parseFlexibleDate_run ::
  "(nat \<Rightarrow> date) \<Rightarrow> string \<Rightarrow> (string \<times> string) list \<times> (js_error + date option)" where
  "parseFlexibleDate_run clock v = parse_loop clock 0 DATE_FORMATS v"

definition parseFlexibleDate :: "(nat \<Rightarrow> date) \<Rightarrow> string \<Rightarrow> js_error + date option" where
  "parseFlexibleDate clock v = snd (parseFlexibleDate_run clock v)"

section \<open>App: component state and handlers\<close>

record app_state =
  selectedDate :: date
  inputValue :: string
  isOpen :: bool
  error :: "string option"

text \<open>A handler's run: the calls of \<^verbatim>\<open>parse\<close> it made, and the state it leaves (or the
  exception that escapes it).\<close>

definition handleSearch_run ::
  "(nat \<Rightarrow> date) \<Rightarrow> app_state \<Rightarrow> (string \<times> string) list \<times> (js_error + app_state)" where
  "handleSearch_run clock st =
     (if inputValue st = [] then ([], Inr st)
      else (case parseFlexibleDate_run clock (trim (inputValue st)) of
              (calls, Inl e) \<Rightarrow> (calls, Inl e)
            | (calls, Inr (Some parsed)) \<Rightarrow>
                (calls, Inr (st\<lparr>selectedDate := parsed, inputValue := [], error := None\<rparr>))
            | (calls, Inr None) \<Rightarrow>
                (calls, Inr (st\<lparr>error := Some ''Invalid date. Please use a valid format.''\<rparr>))))"

definition handleSearch :: "(nat \<Rightarrow> date) \<Rightarrow> app_state \<Rightarrow> js_error + app_state" where
  "handleSearch clock st = snd (handleSearch_run clock st)"

definition onBlur_run ::
  "(nat \<Rightarrow> date) \<Rightarrow> app_state \<Rightarrow> (string \<times> string) list \<times> (js_error + app_state)" where
  "onBlur_run clock st =
     (if inputValue st = [] then ([], Inr st)
      else (case parseFlexibleDate_run clock (trim (inputValue st)) of
              (calls, Inl e) \<Rightarrow> (calls, Inl e)
            | (calls, Inr (Some parsed)) \<Rightarrow>
                (case format parsed ''dd.MM.yyyy'' of
                   Inl e \<Rightarrow> (calls, Inl e)
                 | Inr text \<Rightarrow> (calls, Inr (st\<lparr>inputValue := text, error := None\<rparr>)))
            | (calls, Inr None) \<Rightarrow> (calls, Inr st)))"

definition onBlur :: "(nat \<Rightarrow> date) \<Rightarrow> app_state \<Rightarrow> js_error + app_state" where
  "onBlur clock st = snd (onBlur_run clock st)"

section \<open>App: the week of the selected date\<close>

definition startOfWeek :: "date \<Rightarrow> int \<Rightarrow> date" where
  "startOfWeek t weekStartsOn =
     (let d = getDay t;
          diff = (if d < weekStartsOn then 7 else 0) + d - weekStartsOn
      in setHours0 (setDate t (day t - diff)))"

definition weekStart :: "date \<Rightarrow> date" where
  "weekStart selected = startOfWeek selected 1"

definition weekDays :: "date \<Rightarrow> date list" where
  "weekDays selected =
     map (\<lambda>i. setDate (weekStart selected) (day (weekStart selected) + i)) [0, 1, 2, 3, 4, 5, 6]"


section \<open>Lemmas: digits, setters, parsing\<close>

lemma lt10_cases: "n < 10 \<Longrightarrow> n \<in> set [0, 1, 2, 3, 4, 5, 6, 7, 8, 9 :: nat]"
  by (simp only: set_simps insert_iff empty_iff) arith

lemma is_digit_digit_char: "n < 10 \<Longrightarrow> is_digit (digit_char n)"
  using lt10_cases[of n] by (auto simp: is_digit_def digit_char_def)

lemma digit_val_digit_char: "n < 10 \<Longrightarrow> digit_val (digit_char n) = n"
  using lt10_cases[of n] by (auto simp: digit_val_def digit_char_def)

lemma MakeDay_first: "MakeDay y 0 1 = (y, 0, 1)"
  by (simp add: MakeDay_def daysInMonth_def)

lemma MakeDay_valid: "0 \<le> m \<Longrightarrow> m \<le> 11 \<Longrightarrow> 1 \<le> d \<Longrightarrow> d \<le> daysInMonth y m \<Longrightarrow> MakeDay y m d = (y, m, d)"
  by (simp add: MakeDay_def)

lemma month_cases:
  "0 \<le> m \<Longrightarrow> m \<le> 11 \<Longrightarrow> m \<in> set [0, 1, 2, 3, 4, 5, 6, 7, 8, 9, 10, 11 :: int]"
  by (simp only: set_simps insert_iff empty_iff) arith

lemma days_table: "0 \<le> m \<Longrightarrow> m \<le> 11 \<Longrightarrow>
  (if isLeapYearIndex y then DAYS_IN_MONTH_LEAP_YEAR ! nat m else DAYS_IN_MONTH ! nat m) = daysInMonth y m"
  using month_cases[of m]
  by (auto simp: DAYS_IN_MONTH_def DAYS_IN_MONTH_LEAP_YEAR_def daysInMonth_def)

lemma validate_DateSetter: "0 \<le> month t \<Longrightarrow> month t \<le> 11 \<Longrightarrow>
  validate t (DateSetter v) = (1 \<le> v \<and> v \<le> daysInMonth (year t) (month t))"
  using days_table[of "month t" "year t"] by (auto split: if_splits)

lemma apply_setters_ymd:
  "apply_setters [YearSetter y, MonthSetter m, DateSetter d] ref =
     (if 0 < y \<and> 0 \<le> m \<and> m \<le> 11 \<and> 1 \<le> d \<and> d \<le> daysInMonth y m
      then Some \<lparr>year = y, month = m, day = d, tod = 0\<rparr> else None)"
proof -
  have a: "set_field ref (YearSetter y) = \<lparr>year = y, month = 0, day = 1, tod = 0\<rparr>"
    by (cases ref) (simp add: setHours0_def setFullYear3_def with_fields_def MakeDay_first)
  have b: "0 \<le> m \<Longrightarrow> m \<le> 11 \<Longrightarrow>
    set_field \<lparr>year = y, month = 0, day = 1, tod = 0\<rparr> (MonthSetter m) = \<lparr>year = y, month = m, day = 1, tod = 0\<rparr>"
    by (simp add: setHours0_def setMonth2_def with_fields_def MakeDay_valid daysInMonth_def)
  have c: "0 \<le> m \<Longrightarrow> m \<le> 11 \<Longrightarrow> 1 \<le> d \<Longrightarrow> d \<le> daysInMonth y m \<Longrightarrow>
    set_field \<lparr>year = y, month = m, day = 1, tod = 0\<rparr> (DateSetter d) = \<lparr>year = y, month = m, day = d, tod = 0\<rparr>"
    by (simp add: setHours0_def setDate_def with_fields_def MakeDay_valid)
  show ?thesis
    by (simp add: a b c validate_DateSetter del: set_field.simps validate.simps(3))
qed

lemma tokenize_DATE_FORMATS:
  "tokenize ''dd.MM.yyyy'' = [''dd'', ''.'', ''MM'', ''.'', ''yyyy'']"
  "tokenize ''dd-MM-yyyy'' = [''dd'', ''-'', ''MM'', ''-'', ''yyyy'']"
  "tokenize ''dd/MM/yyyy'' = [''dd'', ''/'', ''MM'', ''/'', ''yyyy'']"
  "tokenize ''d.M.yyyy'' = [''d'', ''.'', ''M'', ''.'', ''yyyy'']"
  "tokenize ''d-M-yyyy'' = [''d'', ''-'', ''M'', ''-'', ''yyyy'']"
  "tokenize ''d/M/yyyy'' = [''d'', ''/'', ''M'', ''/'', ''yyyy'']"
  "tokenize ''dd MMMM yyyy'' = [''dd'', '' '', ''MMMM'', '' '', ''yyyy'']"
  "tokenize ''d MMMM yyyy'' = [''d'', '' '', ''MMMM'', '' '', ''yyyy'']"
  "tokenize ''yyyy-MM-dd'' = [''yyyy'', ''-'', ''MM'', ''-'', ''dd'']"
  "tokenize ''yyyy/MM/dd'' = [''yyyy'', ''/'', ''MM'', ''/'', ''dd'']"
  by (simp_all add: is_word_char_def is_latin_letter_def is_digit_def)

declare tokenize.simps [simp del]

lemma token_kinds:
  "token_kind_of ''dd'' = Modelled" "token_kind_of ''d'' = Modelled"
  "token_kind_of ''MM'' = Modelled" "token_kind_of ''M'' = Modelled"
  "token_kind_of ''MMMM'' = Modelled" "token_kind_of ''yyyy'' = Modelled"
  "token_kind_of ''.'' = Literal" "token_kind_of ''-'' = Literal"
  "token_kind_of ''/'' = Literal" "token_kind_of '' '' = Literal"
  by (simp_all add: token_kind_of_def is_latin_letter_def)

lemma run_parser_setter:
  "run_parser ''d'' s = Some (st, rest) \<Longrightarrow> \<exists>v. st = DateSetter v"
  "run_parser ''dd'' s = Some (st, rest) \<Longrightarrow> \<exists>v. st = DateSetter v"
  "run_parser ''M'' s = Some (st, rest) \<Longrightarrow> \<exists>v. st = MonthSetter v"
  "run_parser ''MM'' s = Some (st, rest) \<Longrightarrow> \<exists>v. st = MonthSetter v"
  "run_parser ''MMMM'' s = Some (st, rest) \<Longrightarrow> \<exists>v. st = MonthSetter v"
  "run_parser ''yyyy'' s = Some (st, rest) \<Longrightarrow> \<exists>v. st = YearSetter v"
  by (auto simp: run_parser_def mapValue_def split: option.splits)

text \<open>Three field tokens with two literals between them, in either order.\<close>

lemma parse_tokens_five:
  assumes "token_kind_of t1 = Modelled" "token_kind_of t2 = Modelled" "token_kind_of t3 = Modelled"
    and "token_kind_of l1 = Literal" "token_kind_of l2 = Literal"
    and "set (take 1 t2) \<inter> set (take 1 t1) = {}"
    and "set (take 1 t3) \<inter> (set (take 1 t2) \<union> set (take 1 t1)) = {}"
  shows "parse_tokens [t1, l1, t2, l2, t3] [] v [] = Inr None \<or>
     (\<exists>s1 r1 s2 r2 s3 r3. run_parser t1 v = Some (s1, r1) \<and> take (length l1) r1 = l1
        \<and> run_parser t2 (drop (length l1) r1) = Some (s2, r2) \<and> take (length l2) r2 = l2
        \<and> run_parser t3 (drop (length l2) r2) = Some (s3, r3) \<and> (\<forall>c \<in> set r3. is_whitespace c)
        \<and> parse_tokens [t1, l1, t2, l2, t3] [] v [] = Inr (Some [s1, s2, s3]))"
  using assms by (auto split: option.splits)

lemma sorted_dMy:
  "sort_key (\<lambda>st. - priority st) [DateSetter d, MonthSetter m, YearSetter y]
     = [YearSetter y, MonthSetter m, DateSetter d]"
  "sort_key (\<lambda>st. - priority st) [YearSetter y, MonthSetter m, DateSetter d]
     = [YearSetter y, MonthSetter m, DateSetter d]"
  by simp_all

lemma valid_ymd:
  "apply_setters [YearSetter y, MonthSetter m, DateSetter d] ref = Some t
     \<Longrightarrow> valid_date t \<and> tod t = 0 \<and> 0 < year t"
  unfolding apply_setters_ymd by (auto simp: valid_date_def split: if_splits)

lemma ymd_indep:
  "apply_setters [YearSetter y, MonthSetter m, DateSetter d] ref
     = apply_setters [YearSetter y, MonthSetter m, DateSetter d] ref'"
  unfolding apply_setters_ymd by simp

lemma parse_tokens_five_cases:
  assumes "token_kind_of t1 = Modelled" "token_kind_of t2 = Modelled" "token_kind_of t3 = Modelled"
    and "token_kind_of l1 = Literal" "token_kind_of l2 = Literal"
    and "set (take 1 t2) \<inter> set (take 1 t1) = {}"
    and "set (take 1 t3) \<inter> (set (take 1 t2) \<union> set (take 1 t1)) = {}"
  obtains (fail) "parse_tokens [t1, l1, t2, l2, t3] [] v [] = Inr None"
    | (ok) s1 r1 s2 r2 s3 r3 a b c where "run_parser t1 a = Some (s1, r1)"
        "run_parser t2 b = Some (s2, r2)" "run_parser t3 c = Some (s3, r3)"
        "parse_tokens [t1, l1, t2, l2, t3] [] v [] = Inr (Some [s1, s2, s3])"
proof -
  from parse_tokens_five[OF assms, of v]
  show ?thesis
  proof (elim disjE exE conjE)
    assume "parse_tokens [t1, l1, t2, l2, t3] [] v [] = Inr None"
    then show ?thesis by (rule fail)
  next
    fix s1 r1 s2 r2 s3 r3
    assume "run_parser t1 v = Some (s1, r1)" "run_parser t2 (drop (length l1) r1) = Some (s2, r2)"
      "run_parser t3 (drop (length l2) r2) = Some (s3, r3)"
      "parse_tokens [t1, l1, t2, l2, t3] [] v [] = Inr (Some [s1, s2, s3])"
    then show ?thesis by (rule ok)
  qed
qed


lemma parse_five:
  assumes tk: "tokenize f = [t1, l1, t2, l2, t3]" and ne: "f \<noteq> []"
    and k: "token_kind_of t1 = Modelled" "token_kind_of t2 = Modelled" "token_kind_of t3 = Modelled"
      "token_kind_of l1 = Literal" "token_kind_of l2 = Literal"
      "set (take 1 t2) \<inter> set (take 1 t1) = {}"
      "set (take 1 t3) \<inter> (set (take 1 t2) \<union> set (take 1 t1)) = {}"
    and sh: "\<And>s1 r1 s2 r2 s3 r3 a b c. run_parser t1 a = Some (s1, r1) \<Longrightarrow> run_parser t2 b = Some (s2, r2)
       \<Longrightarrow> run_parser t3 c = Some (s3, r3) \<Longrightarrow>
       \<exists>y m d. sort_key (\<lambda>st. - priority st) [s1, s2, s3] = [YearSetter y, MonthSetter m, DateSetter d]"
  shows "\<exists>r. (\<forall>ref. parse v f ref = Inr r)
           \<and> (\<forall>t. r = Some t \<longrightarrow> valid_date t \<and> tod t = 0 \<and> 0 < year t)"
proof (rule parse_tokens_five_cases[OF k, of v])
  assume "parse_tokens [t1, l1, t2, l2, t3] [] v [] = Inr None"
  then have "\<forall>ref. parse v f ref = Inr None"
    by (simp add: parse_def tk ne del: parse_tokens.simps)
  then show ?thesis by simp
next
  fix s1 r1 s2 r2 s3 r3 a b c
  assume ok: "run_parser t1 a = Some (s1, r1)"
    "run_parser t2 b = Some (s2, r2)" "run_parser t3 c = Some (s3, r3)"
    "parse_tokens [t1, l1, t2, l2, t3] [] v [] = Inr (Some [s1, s2, s3])"
  from sh[OF ok(1,2,3)] obtain y m d where
    srt: "sort_key (\<lambda>st. - priority st) [s1, s2, s3] = [YearSetter y, MonthSetter m, DateSetter d]"
    by (elim exE)
  define r where "r = apply_setters [YearSetter y, MonthSetter m, DateSetter d] \<lparr>year = 0, month = 0, day = 1, tod = 0\<rparr>"
  have "\<forall>ref. parse v f ref = Inr r"
    using ymd_indep[of y m d _ "\<lparr>year = 0, month = 0, day = 1, tod = 0\<rparr>"]
    by (simp add: r_def parse_def tk ne ok(4) srt del: apply_setters.simps sort_key_simps parse_tokens.simps)
  moreover have "\<forall>t. r = Some t \<longrightarrow> valid_date t \<and> tod t = 0 \<and> 0 < year t"
    unfolding r_def using valid_ymd by (intro allI impI)
  ultimately show ?thesis by (intro exI conjI)
qed

lemma sorted_dMy_ex:
  assumes "run_parser t1 a = Some (s1, r1)" "run_parser t2 b = Some (s2, r2)"
    "run_parser ''yyyy'' c = Some (s3, r3)"
    and "t1 = ''d'' \<or> t1 = ''dd''" and "t2 = ''M'' \<or> t2 = ''MM'' \<or> t2 = ''MMMM''"
  shows "\<exists>y m d. sort_key (\<lambda>st. - priority st) [s1, s2, s3]
           = [YearSetter y, MonthSetter m, DateSetter d]"
proof -
  from assms(1,4) have "\<exists>d. s1 = DateSetter d"
    using run_parser_setter(1)[of a s1 r1] run_parser_setter(2)[of a s1 r1] by (elim disjE) simp_all
  then obtain d where 1: "s1 = DateSetter d" by (elim exE)
  from assms(2,5) have "\<exists>m. s2 = MonthSetter m"
    using run_parser_setter(3)[of b s2 r2] run_parser_setter(4)[of b s2 r2]
      run_parser_setter(5)[of b s2 r2] by (elim disjE) simp_all
  then obtain m where 2: "s2 = MonthSetter m" by (elim exE)
  from assms(3) have "\<exists>y. s3 = YearSetter y" by (rule run_parser_setter(6))
  then obtain y where 3: "s3 = YearSetter y" by (elim exE)
  show ?thesis unfolding 1 2 3 sorted_dMy by (intro exI) (rule refl)
qed

lemma sorted_yMd_ex:
  assumes "run_parser ''yyyy'' a = Some (s1, r1)" "run_parser ''MM'' b = Some (s2, r2)"
    "run_parser ''dd'' c = Some (s3, r3)"
  shows "\<exists>y m d. sort_key (\<lambda>st. - priority st) [s1, s2, s3]
           = [YearSetter y, MonthSetter m, DateSetter d]"
proof -
  from assms(1) have "\<exists>y. s1 = YearSetter y" by (rule run_parser_setter(6))
  then obtain y where 1: "s1 = YearSetter y" by (elim exE)
  from assms(2) have "\<exists>m. s2 = MonthSetter m" by (rule run_parser_setter(4))
  then obtain m where 2: "s2 = MonthSetter m" by (elim exE)
  from assms(3) have "\<exists>d. s3 = DateSetter d" by (rule run_parser_setter(2))
  then obtain d where 3: "s3 = DateSetter d" by (elim exE)
  show ?thesis unfolding 1 2 3 sorted_dMy by (intro exI) (rule refl)
qed

lemma parse_dMy:
  assumes tk: "tokenize f = [t1, l, t2, l, ''yyyy'']" and ne: "f \<noteq> []"
    and t1: "t1 = ''d'' \<or> t1 = ''dd''" and t2: "t2 = ''M'' \<or> t2 = ''MM'' \<or> t2 = ''MMMM''"
    and l: "token_kind_of l = Literal"
  shows "\<exists>r. (\<forall>ref. parse v f ref = Inr r)
           \<and> (\<forall>t. r = Some t \<longrightarrow> valid_date t \<and> tod t = 0 \<and> 0 < year t)"
proof (rule parse_five[OF tk ne _ _ token_kinds(6) l l])
  show "token_kind_of t1 = Modelled" using t1 by (elim disjE) (simp_all add: token_kinds)
  show "token_kind_of t2 = Modelled" using t2 by (elim disjE) (simp_all add: token_kinds)
  show "set (take 1 t2) \<inter> set (take 1 t1) = {}"
    using t1 t2 by (elim disjE) simp_all
  show "set (take 1 ''yyyy'') \<inter> (set (take 1 t2) \<union> set (take 1 t1)) = {}"
    using t1 t2 by (elim disjE) simp_all
  show "\<exists>y m d. sort_key (\<lambda>st. - priority st) [s1, s2, s3]
          = [YearSetter y, MonthSetter m, DateSetter d]"
    if "run_parser t1 a = Some (s1, r1)" "run_parser t2 b = Some (s2, r2)"
      "run_parser ''yyyy'' c = Some (s3, r3)" for s1 r1 s2 r2 s3 r3 a b c
    by (rule sorted_dMy_ex[OF that t1 t2])
qed

lemma parse_yMd:
  assumes tk: "tokenize f = [''yyyy'', l, ''MM'', l, ''dd'']" and ne: "f \<noteq> []"
    and l: "token_kind_of l = Literal"
  shows "\<exists>r. (\<forall>ref. parse v f ref = Inr r)
           \<and> (\<forall>t. r = Some t \<longrightarrow> valid_date t \<and> tod t = 0 \<and> 0 < year t)"
proof (rule parse_five[OF tk ne token_kinds(6,3,1) l l])
  show "set (take 1 ''MM'') \<inter> set (take 1 ''yyyy'') = {}" by simp
  show "set (take 1 ''dd'') \<inter> (set (take 1 ''MM'') \<union> set (take 1 ''yyyy'')) = {}" by simp
  show "\<exists>y m d. sort_key (\<lambda>st. - priority st) [s1, s2, s3]
          = [YearSetter y, MonthSetter m, DateSetter d]"
    if "run_parser ''yyyy'' a = Some (s1, r1)" "run_parser ''MM'' b = Some (s2, r2)"
      "run_parser ''dd'' c = Some (s3, r3)" for s1 r1 s2 r2 s3 r3 a b c
    by (rule sorted_yMd_ex[OF that])
qed

lemma parse_DATE_FORMATS:
  assumes "f \<in> set DATE_FORMATS"
  shows "\<exists>r. (\<forall>ref. parse v f ref = Inr r)
           \<and> (\<forall>t. r = Some t \<longrightarrow> valid_date t \<and> tod t = 0 \<and> 0 < year t)"
proof -
  from assms have "f = ''dd.MM.yyyy'' \<or> f = ''dd-MM-yyyy'' \<or> f = ''dd/MM/yyyy'' \<or> f = ''d.M.yyyy'' \<or> f = ''d-M-yyyy''
      \<or> f = ''d/M/yyyy'' \<or> f = ''dd MMMM yyyy'' \<or> f = ''d MMMM yyyy'' \<or> f = ''yyyy-MM-dd'' \<or> f = ''yyyy/MM/dd''"
    unfolding DATE_FORMATS_def by simp
  then show ?thesis
  proof (elim disjE)
    assume e: "f = ''dd.MM.yyyy''"
    show ?thesis unfolding e
      by (rule parse_dMy[OF tokenize_DATE_FORMATS(1)]) (simp_all add: token_kinds)
  next
    assume e: "f = ''dd-MM-yyyy''"
    show ?thesis unfolding e
      by (rule parse_dMy[OF tokenize_DATE_FORMATS(2)]) (simp_all add: token_kinds)
  next
    assume e: "f = ''dd/MM/yyyy''"
    show ?thesis unfolding e
      by (rule parse_dMy[OF tokenize_DATE_FORMATS(3)]) (simp_all add: token_kinds)
  next
    assume e: "f = ''d.M.yyyy''"
    show ?thesis unfolding e
      by (rule parse_dMy[OF tokenize_DATE_FORMATS(4)]) (simp_all add: token_kinds)
  next
    assume e: "f = ''d-M-yyyy''"
    show ?thesis unfolding e
      by (rule parse_dMy[OF tokenize_DATE_FORMATS(5)]) (simp_all add: token_kinds)
  next
    assume e: "f = ''d/M/yyyy''"
    show ?thesis unfolding e
      by (rule parse_dMy[OF tokenize_DATE_FORMATS(6)]) (simp_all add: token_kinds)
  next
    assume e: "f = ''dd MMMM yyyy''"
    show ?thesis unfolding e
      by (rule parse_dMy[OF tokenize_DATE_FORMATS(7)]) (simp_all add: token_kinds)
  next
    assume e: "f = ''d MMMM yyyy''"
    show ?thesis unfolding e
      by (rule parse_dMy[OF tokenize_DATE_FORMATS(8)]) (simp_all add: token_kinds)
  next
    assume e: "f = ''yyyy-MM-dd''"
    show ?thesis unfolding e
      by (rule parse_yMd[OF tokenize_DATE_FORMATS(9)]) (simp_all add: token_kinds)
  next
    assume e: "f = ''yyyy/MM/dd''"
    show ?thesis unfolding e
      by (rule parse_yMd[OF tokenize_DATE_FORMATS(10)]) (simp_all add: token_kinds)
  qed
qed

section \<open>Lemmas: day numbers and rollover\<close>

lemma div_step:
  fixes a k :: int
  assumes k: "0 < k"
  shows "(a + 1) div k = a div k + (if (a + 1) mod k = 0 then 1 else 0)"
proof -
  define q r where "q = a div k" and "r = a mod k"
  have a: "a = k * q + r" and r: "0 \<le> r" "r < k"
    using k by (simp_all add: q_def r_def)
  show ?thesis
  proof (cases "r + 1 < k")
    case True
    have "(a + 1) div k = q"
      by (rule int_div_pos_eq[of _ _ _ "r + 1"]) (use a r True in auto)
    moreover have "(a + 1) mod k = r + 1"
      by (rule int_mod_pos_eq[of _ _ q]) (use a r True in auto)
    ultimately show ?thesis using r by (simp add: q_def)
  next
    case False
    then have "r + 1 = k" using r by simp
    then have e: "a + 1 = k * (q + 1)" using a by (simp add: algebra_simps)
    show ?thesis unfolding e using k by (simp add: q_def)
  qed
qed

lemma DayFromYear_next:
  "DayFromYear (y + 1) = DayFromYear y + (if isLeapYearIndex y then 366 else 365)"
proof -
  have m4: "(y - 1968) mod 4 = y mod 4"
    using mod_mult_self1[of y "- 492" 4] by simp
  have m100: "(y - 1900) mod 100 = y mod 100"
    using mod_mult_self1[of y "- 19" 100] by simp
  have m400: "(y - 1600) mod 400 = y mod 400"
    using mod_mult_self1[of y "- 4" 400] by simp
  have d4: "(y - 1968) div 4 = (y - 1969) div 4 + (if y mod 4 = 0 then 1 else 0)"
    using div_step[of 4 "y - 1969"] by (simp add: m4)
  have d100: "(y - 1900) div 100 = (y - 1901) div 100 + (if y mod 100 = 0 then 1 else 0)"
    using div_step[of 100 "y - 1901"] by (simp add: m100)
  have d400: "(y - 1600) div 400 = (y - 1601) div 400 + (if y mod 400 = 0 then 1 else 0)"
    using div_step[of 400 "y - 1601"] by (simp add: m400)
  have c: "y mod 400 = 0 \<Longrightarrow> y mod 100 = 0" "y mod 100 = 0 \<Longrightarrow> y mod 4 = 0"
    unfolding mod_eq_0_iff_dvd
    using dvd_trans[of 100 400 y] dvd_trans[of 4 100 y] by simp_all
  define A B C where "A = (y - 1969) div 4" and "B = (y - 1901) div 100"
    and "C = (y - 1601) div 400"
  have n: "DayFromYear (y + 1) = 365 * (y - 1969) + (A + (if y mod 4 = 0 then 1 else 0))
      - (B + (if y mod 100 = 0 then 1 else 0)) + (C + (if y mod 400 = 0 then 1 else 0))"
    unfolding A_def B_def C_def d4[symmetric] d100[symmetric] d400[symmetric]
    by (simp add: DayFromYear_def)
  have o: "DayFromYear y = 365 * (y - 1970) + A - B + C"
    by (simp add: DayFromYear_def A_def B_def C_def)
  show ?thesis
    unfolding n o isLeapYearIndex_def using c by (simp split: if_splits)
qed

lemma daysBeforeMonth_0: "daysBeforeMonth y 0 = 0"
  by (simp add: daysBeforeMonth_def)

lemma daysBeforeMonth_step:
  "0 \<le> m \<Longrightarrow> daysBeforeMonth y (m + 1) = daysBeforeMonth y m + daysInMonth y m"
  by (simp add: daysBeforeMonth_def upto_rec2)

lemma daysBeforeMonth_11: "daysBeforeMonth y 11 + 31 = (if isLeapYearIndex y then 366 else 365)"
  apply (simp add: daysBeforeMonth_def)
  apply (simp add: upto.simps daysInMonth_def)
  done


lemma next_month_days:
  assumes "0 \<le> m" "m \<le> 11" "next_month y m = (y', m')"
  shows "DayFromYear y' + daysBeforeMonth y' m'
           = DayFromYear y + daysBeforeMonth y m + daysInMonth y m \<and> 0 \<le> m' \<and> m' \<le> 11"
proof (cases "m = 11")
  case True
  with assms(3) have e: "y' = y + 1" "m' = 0" by (simp_all add: next_month_def)
  show ?thesis
    unfolding e True DayFromYear_next daysBeforeMonth_0
    using daysBeforeMonth_11[of y] by (simp add: daysInMonth_def)
next
  case False
  with assms(3) have e: "y' = y" "m' = m + 1" by (simp_all add: next_month_def)
  show ?thesis
    unfolding e using assms(1,2) False by (simp add: daysBeforeMonth_step)
qed

lemma prev_month_days:
  assumes "0 \<le> m" "m \<le> 11" "prev_month y m = (y', m')"
  shows "DayFromYear y' + daysBeforeMonth y' m' + daysInMonth y' m'
           = DayFromYear y + daysBeforeMonth y m \<and> 0 \<le> m' \<and> m' \<le> 11"
proof -
  from assms have r: "0 \<le> m'" "m' \<le> 11" and n: "next_month y' m' = (y, m)"
    by (auto simp: prev_month_def next_month_def split: if_splits)
  from next_month_days[OF r n] r show ?thesis by simp
qed

lemma roll_forward_days:
  "0 \<le> m \<Longrightarrow> m \<le> 11 \<Longrightarrow> 1 \<le> d \<Longrightarrow> roll_forward y m d = (y', m', d') \<Longrightarrow>
     DayFromYear y' + daysBeforeMonth y' m' + d' = DayFromYear y + daysBeforeMonth y m + d
     \<and> 0 \<le> m' \<and> m' \<le> 11 \<and> 1 \<le> d' \<and> d' \<le> daysInMonth y' m'"
proof (induction y m d rule: roll_forward.induct)
  case (1 y m d)
  show ?case
  proof (cases "daysInMonth y m < d")
    case True
    obtain y1 m1 where nm: "next_month y m = (y1, m1)" by (cases "next_month y m")
    from next_month_days[OF "1.prems"(1,2) nm]
    have s: "DayFromYear y1 + daysBeforeMonth y1 m1
               = DayFromYear y + daysBeforeMonth y m + daysInMonth y m"
      and r: "0 \<le> m1" "m1 \<le> 11" by simp_all
    from "1.prems"(4) True nm have rf: "roll_forward y1 m1 (d - daysInMonth y m) = (y', m', d')"
      by (simp add: roll_forward.simps[of y m d])
    from True have p: "1 \<le> d - daysInMonth y m" by simp
    from "1.IH"[OF True nm[symmetric] r p rf] s show ?thesis by simp
  next
    case False
    with "1.prems" show ?thesis by (simp add: roll_forward.simps[of y m d])
  qed
qed

lemma roll_backward_days:
  "0 \<le> m \<Longrightarrow> m \<le> 11 \<Longrightarrow> d \<le> daysInMonth y m \<Longrightarrow> roll_backward y m d = (y', m', d') \<Longrightarrow>
     DayFromYear y' + daysBeforeMonth y' m' + d' = DayFromYear y + daysBeforeMonth y m + d
     \<and> 0 \<le> m' \<and> m' \<le> 11 \<and> 1 \<le> d' \<and> d' \<le> daysInMonth y' m'"
proof (induction y m d rule: roll_backward.induct)
  case (1 y m d)
  show ?case
  proof (cases "d < 1")
    case True
    obtain y1 m1 where pm: "prev_month y m = (y1, m1)" by (cases "prev_month y m")
    from prev_month_days[OF "1.prems"(1,2) pm]
    have s: "DayFromYear y1 + daysBeforeMonth y1 m1 + daysInMonth y1 m1
               = DayFromYear y + daysBeforeMonth y m"
      and r: "0 \<le> m1" "m1 \<le> 11" by simp_all
    from "1.prems"(4) True pm have rb: "roll_backward y1 m1 (d + daysInMonth y1 m1) = (y', m', d')"
      by (simp add: roll_backward.simps[of y m d])
    from True have p: "d + daysInMonth y1 m1 \<le> daysInMonth y1 m1" by simp
    from "1.IH"[OF True pm[symmetric] r p rb] s show ?thesis by simp
  next
    case False
    with "1.prems" show ?thesis by (simp add: roll_backward.simps[of y m d])
  qed
qed

lemma MakeDay_days:
  assumes "0 \<le> m" "m \<le> 11" "MakeDay y m d = (y', m', d')"
  shows "DayFromYear y' + daysBeforeMonth y' m' + d' = DayFromYear y + daysBeforeMonth y m + d
     \<and> 0 \<le> m' \<and> m' \<le> 11 \<and> 1 \<le> d' \<and> d' \<le> daysInMonth y' m'"
proof -
  from assms(1,2) have n: "m div 12 = 0" "m mod 12 = m" by simp_all
  have dim: "1 \<le> daysInMonth y m" by (simp add: daysInMonth_def)
  show ?thesis
  proof (cases "d < 1")
    case True
    with assms(3) have "roll_backward y m d = (y', m', d')" by (simp add: MakeDay_def n)
    moreover from True dim have "d \<le> daysInMonth y m" by simp
    ultimately show ?thesis using roll_backward_days[OF assms(1,2)] by blast
  next
    case False
    with assms(3) have "roll_forward y m d = (y', m', d')" by (simp add: MakeDay_def n)
    moreover from False have "1 \<le> d" by simp
    ultimately show ?thesis using roll_forward_days[OF assms(1,2)] by blast
  qed
qed

lemma setDate_props:
  assumes "0 \<le> month t" "month t \<le> 11"
  shows "dayNumber (setDate t n) = dayNumber t + (n - day t)"
    and "0 \<le> month (setDate t n) \<and> month (setDate t n) \<le> 11"
    and "1 \<le> day (setDate t n) \<and> day (setDate t n) \<le> daysInMonth (year (setDate t n)) (month (setDate t n))"
    and "tod (setDate t n) = tod t"
proof -
  obtain y' m' d' where md: "MakeDay (year t) (month t) n = (y', m', d')"
    by (cases "MakeDay (year t) (month t) n")
  have f: "year (setDate t n) = y'" "month (setDate t n) = m'" "day (setDate t n) = d'"
    "tod (setDate t n) = tod t"
    by (simp_all add: setDate_def with_fields_def md)
  from MakeDay_days[OF assms md] f
  show "dayNumber (setDate t n) = dayNumber t + (n - day t)"
    and "0 \<le> month (setDate t n) \<and> month (setDate t n) \<le> 11"
    and "1 \<le> day (setDate t n) \<and> day (setDate t n) \<le> daysInMonth (year (setDate t n)) (month (setDate t n))"
    and "tod (setDate t n) = tod t"
    by (simp_all add: dayNumber_def)
qed

lemma weekStart_props:
  assumes "valid_date t"
  shows "dayNumber (weekStart t) = dayNumber t - (getDay t + 6) mod 7"
    and "0 \<le> month (weekStart t) \<and> month (weekStart t) \<le> 11"
    and "1 \<le> day (weekStart t) \<and> day (weekStart t) \<le> daysInMonth (year (weekStart t)) (month (weekStart t))"
    and "tod (weekStart t) = 0"
    and "getDay (weekStart t) = 1"
proof -
  from assms have m: "0 \<le> month t" "month t \<le> 11" by (simp_all add: valid_date_def)
  define g where "g = getDay t"
  have g: "0 \<le> g" "g < 7" by (simp_all add: g_def getDay_def)
  define diff where "diff = (if g < 1 then 7 else 0) + g - 1"
  have diff: "diff = (g + 6) mod 7" using g unfolding diff_def by presburger
  have w: "weekStart t = setHours0 (setDate t (day t - diff))"
    by (simp add: weekStart_def startOfWeek_def Let_def g_def diff_def)
  have f: "year (weekStart t) = year (setDate t (day t - diff))"
    "month (weekStart t) = month (setDate t (day t - diff))"
    "day (weekStart t) = day (setDate t (day t - diff))"
    by (simp_all add: w setHours0_def)
  have dn: "dayNumber (weekStart t) = dayNumber (setDate t (day t - diff))"
    by (simp add: dayNumber_def f)
  show 1: "dayNumber (weekStart t) = dayNumber t - (getDay t + 6) mod 7"
    unfolding dn setDate_props(1)[OF m] diff g_def by simp
  show "0 \<le> month (weekStart t) \<and> month (weekStart t) \<le> 11"
    unfolding f by (rule setDate_props(2)[OF m])
  show "1 \<le> day (weekStart t) \<and> day (weekStart t) \<le> daysInMonth (year (weekStart t)) (month (weekStart t))"
    unfolding f by (rule setDate_props(3)[OF m])
  show "tod (weekStart t) = 0" by (simp add: w setHours0_def)
  have "getDay (weekStart t) = (dayNumber t + 4 - (g + 6) mod 7) mod 7"
    unfolding getDay_def[of "weekStart t"] 1 g_def by (simp add: algebra_simps)
  also have "\<dots> = 1" unfolding g_def getDay_def by presburger
  finally show "getDay (weekStart t) = 1" .
qed

lemma weekDays_nth:
  "i < 7 \<Longrightarrow> weekDays t ! i = setDate (weekStart t) (day (weekStart t) + int i)"
proof -
  assume "i < 7"
  then have "i = 0 \<or> i = 1 \<or> i = 2 \<or> i = 3 \<or> i = 4 \<or> i = 5 \<or> i = 6" by arith
  then show ?thesis by (elim disjE) (simp_all add: weekDays_def)
qed

lemma weekDays_nth_props:
  assumes "valid_date t" "i < 7"
  shows "dayNumber (weekDays t ! i) = dayNumber (weekStart t) + int i"
    and "valid_date (weekDays t ! i)" and "tod (weekDays t ! i) = 0"
proof -
  note w = weekStart_props[OF assms(1)]
  from w(2) have m: "0 \<le> month (weekStart t)" "month (weekStart t) \<le> 11" by simp_all
  note s = setDate_props[OF m, of "day (weekStart t) + int i"]
  show "dayNumber (weekDays t ! i) = dayNumber (weekStart t) + int i"
    unfolding weekDays_nth[OF assms(2)] s(1) by simp
  show "tod (weekDays t ! i) = 0"
    unfolding weekDays_nth[OF assms(2)] s(4) by (rule w(4))
  then show "valid_date (weekDays t ! i)"
    unfolding valid_date_def weekDays_nth[OF assms(2)] using s(2,3) by simp
qed


section \<open>Lemmas: the loop over the formats\<close>

lemma isValid_simps: "isValid None = False" "isValid (Some t) = True"
  by (simp_all add: isValid_def)

lemma parse_loop_step:
  "parse v f (clock i) = Inr None \<Longrightarrow>
     parse_loop clock i (f # fs) v
       = ((v, f) # fst (parse_loop clock (Suc i) fs v), snd (parse_loop clock (Suc i) fs v))"
  "parse v f (clock i) = Inr (Some t) \<Longrightarrow>
     parse_loop clock i (f # fs) v = ([(v, f)], Inr (Some t))"
  "parse v f (clock i) = Inl e \<Longrightarrow> parse_loop clock i (f # fs) v = ([(v, f)], Inl e)"
  by (simp_all add: isValid_simps split: prod.splits)

declare parse_loop.simps(2) [simp del]

lemma parse_loop_calls_prefix:
  "fst (parse_loop clock i fs v)
     = map (Pair v) (take (length (fst (parse_loop clock i fs v))) fs)"
proof (induction fs arbitrary: i)
  case Nil
  show ?case by simp
next
  case (Cons f fs)
  show ?case
  proof (cases "parse v f (clock i)")
    case (Inl e)
    then show ?thesis by (simp add: parse_loop_step)
  next
    case (Inr r)
    then show ?thesis using Cons.IH[of "Suc i"] by (cases r) (simp_all add: parse_loop_step)
  qed
qed

lemma parse_loop_indep:
  assumes "\<forall>f \<in> set fs. \<exists>r. \<forall>ref. parse v f ref = Inr r"
  shows "parse_loop clock i fs v = parse_loop clock' i' fs v"
  using assms
proof (induction fs arbitrary: i i')
  case Nil
  show ?case by simp
next
  case (Cons f fs)
  from Cons.prems obtain r where r: "\<forall>ref. parse v f ref = Inr r" by auto
  from Cons.prems have "\<forall>f \<in> set fs. \<exists>r. \<forall>ref. parse v f ref = Inr r" by simp
  from Cons.IH[OF this, of "Suc i" "Suc i'"] show ?case
    by (cases r) (simp_all add: r parse_loop_step)
qed

lemma parse_loop_returns:
  assumes "\<forall>f \<in> set fs. \<exists>r. \<forall>ref. parse v f ref = Inr r"
  shows "\<exists>r. snd (parse_loop clock i fs v) = Inr r"
  using assms
proof (induction fs arbitrary: i)
  case Nil
  show ?case by simp
next
  case (Cons f fs)
  from Cons.prems obtain r where r: "\<forall>ref. parse v f ref = Inr r" by auto
  from Cons.prems have "\<forall>f \<in> set fs. \<exists>r. \<forall>ref. parse v f ref = Inr r" by simp
  from Cons.IH[OF this, of "Suc i"] show ?case
    by (cases r) (simp_all add: r parse_loop_step)
qed

lemma parse_loop_Some_iff:
  assumes "\<forall>f \<in> set fs. \<exists>r. \<forall>ref. parse v f ref = Inr r"
  shows "snd (parse_loop clock i fs v) = Inr (Some d) \<longleftrightarrow>
     (\<exists>k<length fs. parse v (fs ! k) (clock (i + k)) = Inr (Some d)
        \<and> (\<forall>j<k. parse v (fs ! j) (clock (i + j)) = Inr None))"
  using assms
proof (induction fs arbitrary: i)
  case Nil
  show ?case by simp
next
  case (Cons f fs)
  from Cons.prems obtain r where r: "\<forall>ref. parse v f ref = Inr r" by auto
  from Cons.prems have "\<forall>f \<in> set fs. \<exists>r. \<forall>ref. parse v f ref = Inr r" by simp
  note IH = Cons.IH[OF this, of "Suc i"]
  show ?case
  proof (cases r)
    case (Some t)
    have "(\<exists>k<length (f # fs). parse v ((f # fs) ! k) (clock (i + k)) = Inr (Some d)
        \<and> (\<forall>j<k. parse v ((f # fs) ! j) (clock (i + j)) = Inr None)) \<longleftrightarrow> t = d"
    proof
      assume "\<exists>k<length (f # fs). parse v ((f # fs) ! k) (clock (i + k)) = Inr (Some d)
        \<and> (\<forall>j<k. parse v ((f # fs) ! j) (clock (i + j)) = Inr None)"
      then obtain k where k: "parse v ((f # fs) ! k) (clock (i + k)) = Inr (Some d)"
        "\<forall>j<k. parse v ((f # fs) ! j) (clock (i + j)) = Inr None" by blast
      show "t = d"
      proof (cases k)
        case 0
        with k(1) r Some show ?thesis by simp
      next
        case (Suc k')
        with k(2) have "parse v f (clock i) = Inr None" by (auto dest: spec[of _ 0])
        with r Some show ?thesis by simp
      qed
    next
      assume "t = d"
      with r Some show "\<exists>k<length (f # fs). parse v ((f # fs) ! k) (clock (i + k)) = Inr (Some d)
        \<and> (\<forall>j<k. parse v ((f # fs) ! j) (clock (i + j)) = Inr None)"
        by (intro exI[of _ 0]) simp
    qed
    then show ?thesis by (simp add: r Some parse_loop_step)
  next
    case None
    have "(\<exists>k<length (f # fs). parse v ((f # fs) ! k) (clock (i + k)) = Inr (Some d)
        \<and> (\<forall>j<k. parse v ((f # fs) ! j) (clock (i + j)) = Inr None)) \<longleftrightarrow>
      (\<exists>k<length fs. parse v (fs ! k) (clock (Suc i + k)) = Inr (Some d)
        \<and> (\<forall>j<k. parse v (fs ! j) (clock (Suc i + j)) = Inr None))" (is "?L \<longleftrightarrow> ?R")
    proof
      assume ?L
      then obtain k where k: "k < length (f # fs)" "parse v ((f # fs) ! k) (clock (i + k)) = Inr (Some d)"
        "\<forall>j<k. parse v ((f # fs) ! j) (clock (i + j)) = Inr None" by blast
      from k(2) r None obtain k' where k': "k = Suc k'" by (cases k) auto
      have "\<forall>j<k'. parse v (fs ! j) (clock (Suc i + j)) = Inr None"
      proof (intro allI impI)
        fix j assume "j < k'"
        then have "Suc j < k" by (simp add: k')
        with k(3) have "parse v ((f # fs) ! Suc j) (clock (i + Suc j)) = Inr None" by blast
        then show "parse v (fs ! j) (clock (Suc i + j)) = Inr None" by simp
      qed
      with k(1,2) k' show ?R by (intro exI[of _ k']) simp
    next
      assume ?R
      then obtain k where k: "k < length fs" "parse v (fs ! k) (clock (Suc i + k)) = Inr (Some d)"
        "\<forall>j<k. parse v (fs ! j) (clock (Suc i + j)) = Inr None" by blast
      have "\<forall>j<Suc k. parse v ((f # fs) ! j) (clock (i + j)) = Inr None"
      proof (intro allI impI)
        fix j assume j: "j < Suc k"
        show "parse v ((f # fs) ! j) (clock (i + j)) = Inr None"
        proof (cases j)
          case 0
          with r None show ?thesis by simp
        next
          case (Suc j')
          with j k(3) show ?thesis by simp
        qed
      qed
      with k(1,2) show ?L by (intro exI[of _ "Suc k"]) simp
    qed
    with IH show ?thesis by (simp add: r None parse_loop_step)
  qed
qed

lemma parse_loop_None_iff:
  assumes "\<forall>f \<in> set fs. \<exists>r. \<forall>ref. parse v f ref = Inr r"
  shows "snd (parse_loop clock i fs v) = Inr None \<longleftrightarrow>
     (\<forall>k<length fs. parse v (fs ! k) (clock (i + k)) = Inr None)"
  using assms
proof (induction fs arbitrary: i)
  case Nil
  show ?case by simp
next
  case (Cons f fs)
  from Cons.prems obtain r where r: "\<forall>ref. parse v f ref = Inr r" by auto
  from Cons.prems have "\<forall>f \<in> set fs. \<exists>r. \<forall>ref. parse v f ref = Inr r" by simp
  note IH = Cons.IH[OF this, of "Suc i"]
  have sh: "(\<forall>k<length (f # fs). parse v ((f # fs) ! k) (clock (i + k)) = Inr None) \<longleftrightarrow>
     parse v f (clock i) = Inr None \<and> (\<forall>k<length fs. parse v (fs ! k) (clock (Suc i + k)) = Inr None)"
    (is "?L \<longleftrightarrow> ?A \<and> ?B")
  proof
    assume l: ?L
    then have ?A by (auto dest: spec[of _ 0])
    moreover have ?B
    proof (intro allI impI)
      fix k assume "k < length fs"
      then have "Suc k < length (f # fs)" by simp
      with l have "parse v ((f # fs) ! Suc k) (clock (i + Suc k)) = Inr None" by blast
      then show "parse v (fs ! k) (clock (Suc i + k)) = Inr None" by simp
    qed
    ultimately show "?A \<and> ?B" ..
  next
    assume ab: "?A \<and> ?B"
    show ?L
    proof (intro allI impI)
      fix k assume k: "k < length (f # fs)"
      show "parse v ((f # fs) ! k) (clock (i + k)) = Inr None"
      proof (cases k)
        case 0
        with ab show ?thesis by simp
      next
        case (Suc k')
        with k ab show ?thesis by simp
      qed
    qed
  qed
  show ?case
  proof (cases r)
    case (Some t)
    then show ?thesis unfolding sh by (simp add: r parse_loop_step)
  next
    case None
    with IH show ?thesis unfolding sh by (simp add: r parse_loop_step)
  qed
qed

lemma DATE_FORMATS_total:
  "\<forall>f \<in> set DATE_FORMATS. \<exists>r. \<forall>ref. parse v f ref = Inr r"
  using parse_DATE_FORMATS[of _ v] by blast

section \<open>Lemmas: the parser on DATE_FORMATS\<close>

lemmas parse_eval =
  parse_def tokenize_DATE_FORMATS token_kinds run_parser_def mapValue_def parseNDigits_def
  parseNumericPattern_def parseInt_def digit_val_def is_digit_def is_whitespace_def
  apply_setters_ymd sorted_dMy daysInMonth_def isLeapYearIndex_def

lemmas run_eval =
  parseFlexibleDate_def parseFlexibleDate_run_def DATE_FORMATS_def parse_loop_step

lemma parseFlexibleDate_valid:
  assumes "parseFlexibleDate clock v = Inr (Some d)"
  shows "valid_date d \<and> tod d = 0 \<and> 0 < year d"
proof -
  from assms have "snd (parse_loop clock 0 DATE_FORMATS v) = Inr (Some d)"
    by (simp add: parseFlexibleDate_def parseFlexibleDate_run_def)
  with parse_loop_Some_iff[OF DATE_FORMATS_total, where clock = clock and i = 0 and d = d]
  obtain k where k: "k < length DATE_FORMATS" "parse v (DATE_FORMATS ! k) (clock k) = Inr (Some d)"
    by auto
  from k(1) have "DATE_FORMATS ! k \<in> set DATE_FORMATS" by (rule nth_mem)
  from parse_DATE_FORMATS[OF this, of v] k(2) show ?thesis by auto
qed

lemma parseFlexibleDate_returns: "\<exists>r. parseFlexibleDate clock v = Inr r"
  unfolding parseFlexibleDate_def parseFlexibleDate_run_def
  by (rule parse_loop_returns[OF DATE_FORMATS_total])

lemma parseFlexibleDate_run_indep: "parseFlexibleDate_run clock v = parseFlexibleDate_run clock' v"
  unfolding parseFlexibleDate_run_def by (rule parse_loop_indep[OF DATE_FORMATS_total])


lemma all_fail:
  assumes "\<forall>f \<in> set DATE_FORMATS. \<forall>ref. parse v f ref = Inr None"
  shows "parseFlexibleDate_run clock v = (map (Pair v) DATE_FORMATS, Inr None)"
proof -
  have "\<forall>f \<in> set fs. \<forall>ref. parse v f ref = Inr None \<Longrightarrow>
      parse_loop clock i fs v = (map (Pair v) fs, Inr None)" for fs i
    by (induction fs arbitrary: i) (simp_all add: parse_loop_step)
  from this[OF assms] show ?thesis by (simp add: parseFlexibleDate_run_def)
qed

lemma fail_29_02_2023: "\<forall>f \<in> set DATE_FORMATS. \<forall>ref. parse ''29.02.2023'' f ref = Inr None"
  by (simp add: DATE_FORMATS_def parse_eval del: apply_setters.simps sort_key_simps)

lemma fail_31_02_2023: "\<forall>f \<in> set DATE_FORMATS. \<forall>ref. parse ''31.02.2023'' f ref = Inr None"
  by (simp add: DATE_FORMATS_def parse_eval del: apply_setters.simps sort_key_simps)

lemma ok_29_02_2024:
  "parse ''29.02.2024'' ''dd.MM.yyyy'' ref = Inr (Some \<lparr>year = 2024, month = 1, day = 29, tod = 0\<rparr>)"
  by (simp add: parse_eval del: apply_setters.simps sort_key_simps)

lemma fail_15_03_2023:
  "parse ''15/03/2023'' ''dd.MM.yyyy'' ref = Inr None"
  "parse ''15/03/2023'' ''dd-MM-yyyy'' ref = Inr None"
  by (simp_all add: parse_eval del: apply_setters.simps sort_key_simps)

lemma ok_15_03_2023:
  "parse ''15/03/2023'' ''dd/MM/yyyy'' ref = Inr (Some \<lparr>year = 2023, month = 2, day = 15, tod = 0\<rparr>)"
  by (simp add: parse_eval del: apply_setters.simps sort_key_simps)

declare string_of_nat.simps [simp del]

lemma fail_empty: "\<forall>f \<in> set DATE_FORMATS. \<forall>ref. parse [] f ref = Inr None"
  by (simp add: DATE_FORMATS_def parse_eval del: apply_setters.simps sort_key_simps)

lemma trim_whitespace:
  assumes "\<forall>c \<in> set s. is_whitespace c"
  shows "trim s = []"
proof -
  from assms have d: "dropWhile is_whitespace s = []" by (induction s) simp_all
  show ?thesis unfolding trim_def d by simp
qed

lemma format_dd_MM_yyyy:
  "format t ''dd.MM.yyyy'' =
     Inr (addLeadingZeros (day t) 2 @ ''.'' @ addLeadingZeros (month t + 1) 2 @ ''.''
          @ addLeadingZeros (if 0 < year t then year t else 1 - year t) 4)"
  by (simp add: format_def tokenize_DATE_FORMATS format_token_def token_kinds)

lemma run_cases:
  obtains calls r where "parseFlexibleDate_run clock v = (calls, Inr r)"
    "parseFlexibleDate clock v = Inr r"
proof -
  obtain calls x where c: "parseFlexibleDate_run clock v = (calls, x)"
    by (cases "parseFlexibleDate_run clock v")
  from parseFlexibleDate_returns[of clock v] obtain r where r: "parseFlexibleDate clock v = Inr r"
    by (elim exE)
  with c have "x = Inr r" by (simp add: parseFlexibleDate_def)
  with c r that show ?thesis by simp
qed

section \<open>Lemmas: formatting a date and parsing it back\<close>

lemma string_of_nat_digits: "\<forall>c \<in> set (string_of_nat n). is_digit c"
proof (induction n rule: string_of_nat.induct)
  case (1 n)
  show ?case
  proof (cases "n < 10")
    case True
    then show ?thesis by (simp add: string_of_nat.simps[of n] is_digit_digit_char)
  next
    case False
    with 1 show ?thesis
      by (simp add: string_of_nat.simps[of n] is_digit_digit_char)
  qed
qed

lemma string_of_nat_not_Nil: "string_of_nat n \<noteq> []"
  by (simp add: string_of_nat.simps[of n])

lemma digits_value_string_of_nat:
  "foldl (\<lambda>a c. 10 * a + digit_val c) 0 (string_of_nat n) = n"
proof (induction n rule: string_of_nat.induct)
  case (1 n)
  show ?case
  proof (cases "n < 10")
    case True
    then show ?thesis by (simp add: string_of_nat.simps[of n] digit_val_digit_char)
  next
    case False
    with 1 show ?thesis
      by (simp add: string_of_nat.simps[of n] digit_val_digit_char)
  qed
qed

lemma digits_value_zeros:
  "foldl (\<lambda>a c. 10 * a + digit_val c) 0 (replicate z (CHR ''0'') @ s)
     = foldl (\<lambda>a c. 10 * a + digit_val c) 0 s"
  by (induction z) (simp_all add: digit_val_def)

lemma length_string_of_nat:
  "n < 10 \<Longrightarrow> length (string_of_nat n) = 1"
  "n < 100 \<Longrightarrow> length (string_of_nat n) \<le> 2"
  "n < 1000 \<Longrightarrow> length (string_of_nat n) \<le> 3"
  "n < 10000 \<Longrightarrow> length (string_of_nat n) \<le> 4"
proof -
  show 1: "length (string_of_nat n) = 1" if "n < 10" for n
    using that by (simp add: string_of_nat.simps[of n])
  show 2: "length (string_of_nat n) \<le> 2" if "n < 100" for n
    using that 1[of "n div 10"] by (simp add: string_of_nat.simps[of n])
  show 3: "length (string_of_nat n) \<le> 3" if "n < 1000" for n
    using that 2[of "n div 10"] by (simp add: string_of_nat.simps[of n])
  show "length (string_of_nat n) \<le> 4" if "n < 10000" for n
    using that 3[of "n div 10"] by (simp add: string_of_nat.simps[of n])
qed

text \<open>A non-negative number padded to a width it fits in: exactly that many digits.\<close>

lemma addLeadingZeros_props:
  assumes "0 \<le> n" "length (string_of_nat (nat n)) \<le> k"
  shows "length (addLeadingZeros n k) = k"
    and "\<forall>c \<in> set (addLeadingZeros n k). is_digit c"
    and "parseInt (addLeadingZeros n k) = n"
proof -
  have e: "addLeadingZeros n k
      = replicate (k - length (string_of_nat (nat n))) (CHR ''0'') @ string_of_nat (nat n)"
    using assms(1) by (simp add: addLeadingZeros_def Let_def)
  show "length (addLeadingZeros n k) = k" unfolding e using assms(2) by simp
  have z: "is_digit (CHR ''0'')" by (simp add: is_digit_def)
  show "\<forall>c \<in> set (addLeadingZeros n k). is_digit c"
    unfolding e using string_of_nat_digits[of "nat n"] z by (auto split: if_splits)
  show "parseInt (addLeadingZeros n k) = n"
    unfolding e parseInt_def digits_value_zeros digits_value_string_of_nat
    using assms(1) by simp
qed

lemma parseNDigits_padded:
  assumes "0 \<le> n" "length (string_of_nat (nat n)) \<le> k" "0 < k"
  shows "parseNDigits k (addLeadingZeros n k @ rest) = Some (n, rest)"
proof -
  note p = addLeadingZeros_props[OF assms(1,2)]
  from p(1) have t: "take k (addLeadingZeros n k @ rest) = addLeadingZeros n k" by simp
  from p(2) have w: "takeWhile is_digit (addLeadingZeros n k) = addLeadingZeros n k"
    by (simp add: takeWhile_eq_all_conv)
  from p(1) assms(3) have ne: "addLeadingZeros n k \<noteq> []" by auto
  show ?thesis
    unfolding parseNDigits_def t w Let_def using ne p(1,3) by simp
qed

lemma addLeadingZeros_1: "0 \<le> n \<Longrightarrow> addLeadingZeros n 1 = string_of_nat (nat n)"
  using string_of_nat_not_Nil[of "nat n"]
  by (cases "string_of_nat (nat n)") (simp_all add: addLeadingZeros_def Let_def)

lemma not_digit_sep:
  "\<not> is_digit sep \<Longrightarrow> sep \<notin> set ''01'' \<and> sep \<notin> set ''012''"
  by (auto simp: is_digit_def)

lemma day_in_range: "1 \<le> d \<Longrightarrow> d \<le> 31 \<Longrightarrow> d \<in> set [1..31]"
  by simp

lemma month_in_range: "1 \<le> m \<Longrightarrow> m \<le> 12 \<Longrightarrow> m \<in> set [1..12]"
  by simp

lemma match_date_pattern_day:
  assumes "1 \<le> d" "d \<le> 31" "\<not> is_digit sep"
  shows "parseNumericPattern match_date_pattern (string_of_nat (nat d) @ sep # rest)
           = Some (d, sep # rest)"
proof -
  note s = not_digit_sep[OF assms(3)]
  from day_in_range[OF assms(1,2)] show ?thesis
    unfolding upto.simps[of 1 31]
    apply (simp add: upto.simps)
    apply (elim disjE)
    using s assms(3)
    apply (simp_all add: parseNumericPattern_def string_of_nat.simps digit_char_def parseInt_def digit_val_def is_digit_def)
    done
qed


lemma match_month_pattern_month:
  assumes "1 \<le> m" "m \<le> 12" "\<not> is_digit sep"
  shows "parseNumericPattern match_month_pattern (string_of_nat (nat m) @ sep # rest)
           = Some (m, sep # rest)"
proof -
  note s = not_digit_sep[OF assms(3)]
  from month_in_range[OF assms(1,2)] show ?thesis
    apply (simp add: upto.simps)
    apply (elim disjE)
    using s assms(3)
    apply (simp_all add: parseNumericPattern_def string_of_nat.simps digit_char_def parseInt_def digit_val_def is_digit_def)
    done
qed

lemma ro_match_month_wide:
  assumes "0 \<le> m" "m \<le> 11"
  shows "ro_match_month Wide (ro_month_wide ! nat m @ CHR '' '' # rest) = Some (m, CHR '' '' # rest)"
  using month_cases[OF assms]
  apply (simp only: set_simps insert_iff empty_iff)
  apply (elim disjE)
  apply (simp_all add: ro_match_month_def ro_month_wide_def ro_parse_month_any_def
      match_alternatives_def lower_def)
  done

lemma run_parser_formatted:
  "1 \<le> d \<Longrightarrow> d \<le> 31 \<Longrightarrow> run_parser ''dd'' (addLeadingZeros d 2 @ rest) = Some (DateSetter d, rest)"
  "1 \<le> d \<Longrightarrow> d \<le> 31 \<Longrightarrow> \<not> is_digit sep \<Longrightarrow>
     run_parser ''d'' (addLeadingZeros d 1 @ sep # rest) = Some (DateSetter d, sep # rest)"
  "0 \<le> m \<Longrightarrow> m \<le> 11 \<Longrightarrow>
     run_parser ''MM'' (addLeadingZeros (m + 1) 2 @ rest) = Some (MonthSetter m, rest)"
  "0 \<le> m \<Longrightarrow> m \<le> 11 \<Longrightarrow> \<not> is_digit sep \<Longrightarrow>
     run_parser ''M'' (string_of_nat (nat (m + 1)) @ sep # rest) = Some (MonthSetter m, sep # rest)"
  "0 \<le> m \<Longrightarrow> m \<le> 11 \<Longrightarrow>
     run_parser ''MMMM'' (ro_month_wide ! nat m @ CHR '' '' # rest)
       = Some (MonthSetter m, CHR '' '' # rest)"
  "1 \<le> y \<Longrightarrow> y \<le> 9999 \<Longrightarrow>
     run_parser ''yyyy'' (addLeadingZeros y 4 @ rest) = Some (YearSetter y, rest)"
proof -
  show "run_parser ''dd'' (addLeadingZeros d 2 @ rest) = Some (DateSetter d, rest)"
    if "1 \<le> d" "d \<le> 31"
    using that parseNDigits_padded[of d 2 rest] length_string_of_nat(2)[of "nat d"]
    by (simp add: run_parser_def mapValue_def)
  show "run_parser ''d'' (addLeadingZeros d 1 @ sep # rest) = Some (DateSetter d, sep # rest)"
    if "1 \<le> d" "d \<le> 31" "\<not> is_digit sep"
    using that match_date_pattern_day[of d sep rest] addLeadingZeros_1[of d]
    by (simp add: run_parser_def mapValue_def)
  show "run_parser ''MM'' (addLeadingZeros (m + 1) 2 @ rest) = Some (MonthSetter m, rest)"
    if "0 \<le> m" "m \<le> 11"
    using that parseNDigits_padded[of "m + 1" 2 rest] length_string_of_nat(2)[of "nat (m + 1)"]
    by (simp add: run_parser_def mapValue_def)
  show "run_parser ''M'' (string_of_nat (nat (m + 1)) @ sep # rest) = Some (MonthSetter m, sep # rest)"
    if "0 \<le> m" "m \<le> 11" "\<not> is_digit sep"
    using that match_month_pattern_month[of "m + 1" sep rest]
    by (simp add: run_parser_def mapValue_def)
  show "run_parser ''MMMM'' (ro_month_wide ! nat m @ CHR '' '' # rest)
       = Some (MonthSetter m, CHR '' '' # rest)"
    if "0 \<le> m" "m \<le> 11"
    using ro_match_month_wide[OF that, of rest]
    by (simp add: run_parser_def mapValue_def)
  show "run_parser ''yyyy'' (addLeadingZeros y 4 @ rest) = Some (YearSetter y, rest)"
    if "1 \<le> y" "y \<le> 9999"
    using that parseNDigits_padded[of y 4 rest] length_string_of_nat(4)[of "nat y"]
    by (simp add: run_parser_def mapValue_def)
qed

lemma separators_not_digits:
  "\<not> is_digit (CHR ''.'')" "\<not> is_digit (CHR ''-'')" "\<not> is_digit (CHR ''/'')" "\<not> is_digit (CHR '' '')"
  by (simp_all add: is_digit_def)

lemmas run_parser_formatted_end =
  run_parser_formatted(1)[of _ "[]", simplified]
  run_parser_formatted(6)[of _ "[]", simplified]
  run_parser_formatted(2)[unfolded One_nat_def]

lemma format_then_parse:
  assumes v: "valid_date t" and td: "tod t = 0" and y: "1 \<le> year t" "year t \<le> 9999"
    and f: "f \<in> set DATE_FORMATS"
  shows "\<exists>s. format t f = Inr s \<and> (\<forall>ref. parse s f ref = Inr (Some t))"
proof -
  from v have m: "0 \<le> month t" "month t \<le> 11" and d1: "1 \<le> day t"
    and dim: "day t \<le> daysInMonth (year t) (month t)"
    by (simp_all add: valid_date_def)
  from dim have d31: "day t \<le> 31" by (simp add: daysInMonth_def split: if_splits)
  have te: "\<lparr>year = year t, month = month t, day = day t, tod = 0\<rparr> = t"
    using td by (cases t) simp
  from y have y0: "0 < year t" by simp
  from f have "f = ''dd.MM.yyyy'' \<or> f = ''dd-MM-yyyy'' \<or> f = ''dd/MM/yyyy''
      \<or> f = ''d.M.yyyy'' \<or> f = ''d-M-yyyy'' \<or> f = ''d/M/yyyy''
      \<or> f = ''dd MMMM yyyy'' \<or> f = ''d MMMM yyyy'' \<or> f = ''yyyy-MM-dd'' \<or> f = ''yyyy/MM/dd''"
    unfolding DATE_FORMATS_def by simp
  then show ?thesis
    apply (elim disjE)
    using m d1 d31 dim y y0
    apply (simp_all add: format_def parse_def tokenize_DATE_FORMATS format_token_def token_kinds
        run_parser_formatted run_parser_formatted_end separators_not_digits
        sorted_dMy apply_setters_ymd te
        del: apply_setters.simps sort_key_simps)
    done
qed

lemma parse_loop_first_match:
  assumes "k < length fs" "parse v (fs ! k) (clock (i + k)) = Inr (Some t)"
    "\<forall>j<k. parse v (fs ! j) (clock (i + j)) = Inr None
           \<or> parse v (fs ! j) (clock (i + j)) = Inr (Some t)"
  shows "snd (parse_loop clock i fs v) = Inr (Some t)"
  using assms
proof (induction fs arbitrary: i k)
  case Nil
  then show ?case by simp
next
  case (Cons f fs)
  show ?case
  proof (cases k)
    case 0
    with Cons.prems(2) show ?thesis by (simp add: parse_loop_step)
  next
    case (Suc k')
    with Cons.prems(3) have "parse v f (clock i) = Inr None \<or> parse v f (clock i) = Inr (Some t)"
      by (auto dest: spec[of _ 0])
    then show ?thesis
    proof
      assume "parse v f (clock i) = Inr (Some t)"
      then show ?thesis by (simp add: parse_loop_step)
    next
      assume n: "parse v f (clock i) = Inr None"
      have a: "k' < length fs" using Cons.prems(1) Suc by simp
      have b: "parse v (fs ! k') (clock (Suc i + k')) = Inr (Some t)"
        using Cons.prems(2) Suc by simp
      have c: "\<forall>j<k'. parse v (fs ! j) (clock (Suc i + j)) = Inr None
           \<or> parse v (fs ! j) (clock (Suc i + j)) = Inr (Some t)"
      proof (intro allI impI)
        fix j assume "j < k'"
        then have "Suc j < k" by (simp add: Suc)
        with Cons.prems(3) have "parse v ((f # fs) ! Suc j) (clock (i + Suc j)) = Inr None
           \<or> parse v ((f # fs) ! Suc j) (clock (i + Suc j)) = Inr (Some t)" by blast
        then show "parse v (fs ! j) (clock (Suc i + j)) = Inr None
           \<or> parse v (fs ! j) (clock (Suc i + j)) = Inr (Some t)" by simp
      qed
      from Cons.IH[OF a b c] show ?thesis by (simp add: parse_loop_step n)
    qed
  qed
qed

lemma fail_01_01_10000: "\<forall>f \<in> set DATE_FORMATS. \<forall>ref. parse ''01.01.10000'' f ref = Inr None"
  by (simp add: DATE_FORMATS_def parse_eval del: apply_setters.simps sort_key_simps)

section \<open>A pattern's text under every pattern\<close>

text \<open>The text that one pattern of the list writes for a year, a month and a day number
  (the day number at most 31, not necessarily one the month has), read by every pattern of
  the list: a pattern either fails or reads the same three numbers.\<close>

text \<open>Digits followed by something that is not a digit: the expression reads them all.\<close>

lemma parseNDigits_all:
  assumes "\<forall>c \<in> set ds. is_digit c" "ds \<noteq> []" "length ds \<le> k"
    and "rest = [] \<or> \<not> is_digit (hd rest)"
  shows "parseNDigits k (ds @ rest) = Some (parseInt ds, rest)"
proof -
  have t: "takeWhile is_digit (take k (ds @ rest)) = ds"
  proof (cases rest)
    case Nil
    with assms(1,3) show ?thesis by (simp add: takeWhile_eq_all_conv)
  next
    case (Cons x xs)
    with assms(4) have x: "\<not> is_digit x" by simp
    show ?thesis
    proof (cases "length ds = k")
      case True
      with assms(1) show ?thesis by (simp add: takeWhile_eq_all_conv)
    next
      case False
      with assms(3) have "take k (ds @ rest) = ds @ x # take (k - length ds - 1) xs"
        by (simp add: Cons take_Cons')
      with assms(1) x show ?thesis by (simp add: takeWhile_append2)
    qed
  qed
  show ?thesis unfolding parseNDigits_def t Let_def using assms(2) by simp
qed

lemma string_of_nat_value: "parseInt (string_of_nat n) = int n"
  by (simp add: parseInt_def digits_value_string_of_nat)

text \<open>Numbers written without padding, and a two-digit day read as a year.\<close>

lemma run_parser_unpadded:
  "1 \<le> d \<Longrightarrow> d \<le> 31 \<Longrightarrow> \<not> is_digit sep \<Longrightarrow>
     run_parser ''dd'' (string_of_nat (nat d) @ sep # rest) = Some (DateSetter d, sep # rest)"
  "0 \<le> m \<Longrightarrow> m \<le> 11 \<Longrightarrow> \<not> is_digit sep \<Longrightarrow>
     run_parser ''MM'' (string_of_nat (nat (m + 1)) @ sep # rest) = Some (MonthSetter m, sep # rest)"
  "1 \<le> d \<Longrightarrow> d \<le> 31 \<Longrightarrow> \<not> is_digit sep \<Longrightarrow>
     run_parser ''yyyy'' (string_of_nat (nat d) @ sep # rest) = Some (YearSetter d, sep # rest)"
  "1 \<le> d \<Longrightarrow> d \<le> 31 \<Longrightarrow> \<not> is_digit sep \<Longrightarrow>
     run_parser ''yyyy'' (addLeadingZeros d 2 @ sep # rest) = Some (YearSetter d, sep # rest)"
proof -
  show "run_parser ''dd'' (string_of_nat (nat d) @ sep # rest) = Some (DateSetter d, sep # rest)"
    if "1 \<le> d" "d \<le> 31" "\<not> is_digit sep"
    using that parseNDigits_all[of "string_of_nat (nat d)" 2 "sep # rest"]
      string_of_nat_digits[of "nat d"] string_of_nat_not_Nil[of "nat d"]
      length_string_of_nat(2)[of "nat d"]
    by (simp add: run_parser_def mapValue_def string_of_nat_value)
  show "run_parser ''MM'' (string_of_nat (nat (m + 1)) @ sep # rest) = Some (MonthSetter m, sep # rest)"
    if "0 \<le> m" "m \<le> 11" "\<not> is_digit sep"
    using that parseNDigits_all[of "string_of_nat (nat (m + 1))" 2 "sep # rest"]
      string_of_nat_digits[of "nat (m + 1)"] string_of_nat_not_Nil[of "nat (m + 1)"]
      length_string_of_nat(2)[of "nat (m + 1)"]
    by (simp add: run_parser_def mapValue_def string_of_nat_value)
  show "run_parser ''yyyy'' (string_of_nat (nat d) @ sep # rest) = Some (YearSetter d, sep # rest)"
    if "1 \<le> d" "d \<le> 31" "\<not> is_digit sep"
    using that parseNDigits_all[of "string_of_nat (nat d)" 4 "sep # rest"]
      string_of_nat_digits[of "nat d"] string_of_nat_not_Nil[of "nat d"]
      length_string_of_nat(4)[of "nat d"]
    by (simp add: run_parser_def mapValue_def string_of_nat_value)
  show "run_parser ''yyyy'' (addLeadingZeros d 2 @ sep # rest) = Some (YearSetter d, sep # rest)"
    if "1 \<le> d" "d \<le> 31" "\<not> is_digit sep"
  proof -
    from that have l: "length (string_of_nat (nat d)) \<le> 2"
      using length_string_of_nat(2)[of "nat d"] by simp
    from that have d0: "0 \<le> d" by simp
    note p = addLeadingZeros_props[OF d0 l]
    from p(1) have ne: "addLeadingZeros d 2 \<noteq> []" by auto
    from parseNDigits_all[of "addLeadingZeros d 2" 4 "sep # rest"] p ne that(3)
    show ?thesis by (simp add: run_parser_def mapValue_def)
  qed
qed


text \<open>The one-letter tokens read a padded number as well.\<close>

lemma run_parser_padded_short:
  "1 \<le> d \<Longrightarrow> d \<le> 31 \<Longrightarrow>
     run_parser ''d'' (addLeadingZeros d 2 @ rest) = Some (DateSetter d, rest)"
  "0 \<le> m \<Longrightarrow> m \<le> 11 \<Longrightarrow>
     run_parser ''M'' (addLeadingZeros (m + 1) 2 @ rest) = Some (MonthSetter m, rest)"
proof -
  show "run_parser ''d'' (addLeadingZeros d 2 @ rest) = Some (DateSetter d, rest)"
    if "1 \<le> d" "d \<le> 31"
    using day_in_range[OF that]
    apply (simp add: upto.simps)
    apply (elim disjE)
    apply (simp_all add: run_parser_def mapValue_def parseNumericPattern_def addLeadingZeros_def
        string_of_nat.simps digit_char_def parseInt_def digit_val_def is_digit_def)
    done
  have "run_parser ''M'' (addLeadingZeros k 2 @ rest) = Some (MonthSetter (k - 1), rest)"
    if "1 \<le> k" "k \<le> 12" for k
    using month_in_range[OF that]
    apply (simp add: upto.simps)
    apply (elim disjE)
    apply (simp_all add: run_parser_def mapValue_def parseNumericPattern_def addLeadingZeros_def
        string_of_nat.simps digit_char_def parseInt_def digit_val_def is_digit_def)
    done
  from this[of "m + 1"]
  show "run_parser ''M'' (addLeadingZeros (m + 1) 2 @ rest) = Some (MonthSetter m, rest)"
    if "0 \<le> m" "m \<le> 11"
    using that by simp
qed

text \<open>A year written with four digits, as text: four digit characters.\<close>

lemma four_digits:
  assumes "0 \<le> y" "y \<le> 9999"
  obtains a b c e where "addLeadingZeros y 4 = [a, b, c, e]"
    "is_digit a" "is_digit b" "is_digit c" "is_digit e"
proof -
  from assms have l: "length (string_of_nat (nat y)) \<le> 4"
    using length_string_of_nat(4)[of "nat y"] by simp
  note p = addLeadingZeros_props[OF assms(1) l]
  from p(1) obtain a b c e where e: "addLeadingZeros y 4 = [a, b, c, e]"
    by (auto simp: length_Suc_conv eval_nat_numeral)
  with p(2) that show ?thesis by simp
qed

lemma digit_not_separator:
  "is_digit c \<Longrightarrow> c \<noteq> CHR ''.'' \<and> c \<noteq> CHR ''-'' \<and> c \<noteq> CHR ''/'' \<and> c \<noteq> CHR '' ''
     \<and> \<not> is_whitespace c"
  by (auto simp: is_digit_def is_whitespace_def)

text \<open>A day token cannot be followed by a separator where the text starts with a
  four-digit year.\<close>

lemma day_token_on_year:
  assumes "0 \<le> y" "y \<le> 9999" "t1 = ''d'' \<or> t1 = ''dd''"
    and "l = ''.'' \<or> l = ''-'' \<or> l = ''/'' \<or> l = '' ''"
  shows "parse_tokens (t1 # l # ts) [] (addLeadingZeros y 4 @ rest) [] = Inr None"
proof -
  obtain a b c e where y: "addLeadingZeros y 4 = [a, b, c, e]"
    and dg: "is_digit a" "is_digit b" "is_digit c" "is_digit e"
    by (rule four_digits[OF assms(1,2)])
  note n = digit_not_separator[OF dg(2)] digit_not_separator[OF dg(3)]
  from assms(3,4) show ?thesis
    apply (elim disjE)
    using dg n
    apply (simp_all add: y token_kinds run_parser_def mapValue_def parseNDigits_def
        parseNumericPattern_def)
    done
qed

text \<open>A day written without padding, read by the two-digit day token and by the year token.\<close>

lemma run_parser_one_digit_width:
  "1 \<le> d \<Longrightarrow> d \<le> 31 \<Longrightarrow> \<not> is_digit sep \<Longrightarrow>
     run_parser ''dd'' (addLeadingZeros d (Suc 0) @ sep # rest) = Some (DateSetter d, sep # rest)"
  "1 \<le> d \<Longrightarrow> d \<le> 31 \<Longrightarrow> \<not> is_digit sep \<Longrightarrow>
     run_parser ''yyyy'' (addLeadingZeros d (Suc 0) @ sep # rest) = Some (YearSetter d, sep # rest)"
  using run_parser_unpadded(1,3)[of d sep rest] addLeadingZeros_1[of d]
  by simp_all

text \<open>A pattern that starts with the day cannot read a text that starts with a four-digit
  year.\<close>

lemma parse_on_year:
  assumes "0 \<le> y" "y \<le> 9999" "tokenize g = t1 # l # ts" "t1 = ''d'' \<or> t1 = ''dd''"
    and "l = ''.'' \<or> l = ''-'' \<or> l = ''/'' \<or> l = '' ''"
  shows "parse (addLeadingZeros y 4 @ rest) g ref = Inr None"
proof -
  obtain a b c e where y: "addLeadingZeros y 4 = [a, b, c, e]"
    by (rule four_digits[OF assms(1,2)])
  from assms(4) have "g \<noteq> []" using assms(3) by (cases g) (simp_all add: tokenize.simps)
  then show ?thesis
    unfolding parse_def assms(3) day_token_on_year[OF assms(1,2,4,5)]
    by (simp add: y)
qed

lemmas parse_dMy_on_year =
  parse_on_year[OF _ _ tokenize_DATE_FORMATS(1), simplified]
  parse_on_year[OF _ _ tokenize_DATE_FORMATS(2), simplified]
  parse_on_year[OF _ _ tokenize_DATE_FORMATS(3), simplified]
  parse_on_year[OF _ _ tokenize_DATE_FORMATS(4), simplified]
  parse_on_year[OF _ _ tokenize_DATE_FORMATS(5), simplified]
  parse_on_year[OF _ _ tokenize_DATE_FORMATS(6), simplified]
  parse_on_year[OF _ _ tokenize_DATE_FORMATS(7), simplified]
  parse_on_year[OF _ _ tokenize_DATE_FORMATS(8), simplified]


text \<open>The two-digit day token reads at most two of the four digits of a year, so text is
  left over after the last token and the parse fails.\<close>

lemma day_token_leaves_year_digits:
  assumes "0 \<le> y" "y \<le> 9999"
  shows "(case run_parser ''dd'' (addLeadingZeros y 4) of
            None \<Rightarrow> Inr None
          | Some (st, rest) \<Rightarrow> parse_tokens [] used rest (acc st)) = Inr None"
proof -
  obtain a b c e where y: "addLeadingZeros y 4 = [a, b, c, e]"
    and dg: "is_digit a" "is_digit b" "is_digit c" "is_digit e"
    by (rule four_digits[OF assms(1,2)])
  note n = digit_not_separator[OF dg(3)]
  show ?thesis
    using dg n
    by (auto simp add: y run_parser_def mapValue_def parseNDigits_def split: option.splits)
qed

text \<open>The ten patterns, by name.\<close>

lemma DATE_FORMATS_cases:
  "f \<in> set DATE_FORMATS \<Longrightarrow>
     f = ''dd.MM.yyyy'' \<or> f = ''dd-MM-yyyy'' \<or> f = ''dd/MM/yyyy''
      \<or> f = ''d.M.yyyy'' \<or> f = ''d-M-yyyy'' \<or> f = ''d/M/yyyy''
      \<or> f = ''dd MMMM yyyy'' \<or> f = ''d MMMM yyyy'' \<or> f = ''yyyy-MM-dd'' \<or> f = ''yyyy/MM/dd''"
  unfolding DATE_FORMATS_def by simp

lemmas cross_rules =
  format_def parse_def tokenize_DATE_FORMATS format_token_def token_kinds
  run_parser_formatted run_parser_formatted_end run_parser_unpadded run_parser_padded_short
  run_parser_one_digit_width day_token_leaves_year_digits
  separators_not_digits sorted_dMy apply_setters_ymd

text \<open>The text of pattern \<^verbatim>\<open>f\<close> for the numbers of \<^verbatim>\<open>t\<close>, read by pattern \<^verbatim>\<open>g\<close>: \<^verbatim>\<open>g\<close>
  fails, or it reads the same numbers, which give the date exactly when the month has the day.\<close>

lemma format_then_any_pattern:
  assumes m: "0 \<le> month t" "month t \<le> 11" and d: "1 \<le> day t" "day t \<le> 31"
    and td: "tod t = 0" and y: "1 \<le> year t" "year t \<le> 9999"
    and f: "f \<in> set DATE_FORMATS" and g: "g \<in> set DATE_FORMATS"
  shows "\<exists>s. format t f = Inr s
     \<and> (parse s g ref = Inr None
        \<or> parse s g ref
            = Inr (if day t \<le> daysInMonth (year t) (month t) then Some t else None))"
proof -
  have te: "\<lparr>year = year t, month = month t, day = day t, tod = 0\<rparr> = t"
    using td by (cases t) simp
  from y have y0: "0 < year t" "0 \<le> year t" by simp_all
  show ?thesis
    apply (insert DATE_FORMATS_cases[OF f] DATE_FORMATS_cases[OF g] m d y y0)
    apply (elim disjE)
    apply (simp_all add: format_def tokenize_DATE_FORMATS format_token_def token_kinds parse_dMy_on_year)
    apply (simp_all add: cross_rules te del: apply_setters.simps sort_key_simps)
    done
qed

text \<open>So the text of a day that the month does not have is refused by every pattern, and by
  the loop over them.\<close>

lemma nonexistent_day_all_patterns:
  assumes m: "0 \<le> month t" "month t \<le> 11" and d: "1 \<le> day t" "day t \<le> 31"
    and td: "tod t = 0" and y: "1 \<le> year t" "year t \<le> 9999"
    and dim: "daysInMonth (year t) (month t) < day t"
    and f: "f \<in> set DATE_FORMATS"
  shows "\<exists>s. format t f = Inr s
     \<and> (\<forall>g \<in> set DATE_FORMATS. \<forall>ref. parse s g ref = Inr None)
     \<and> parseFlexibleDate clock s = Inr None"
proof -
  from format_then_any_pattern[OF m d td y f f, of t]
  obtain s where s: "format t f = Inr s" by (elim exE conjE)
  have "parse s g ref = Inr None" if g: "g \<in> set DATE_FORMATS" for g ref
  proof -
    from format_then_any_pattern[OF m d td y f g, of ref]
    obtain s' where s': "format t f = Inr s'"
      "parse s' g ref = Inr None
        \<or> parse s' g ref = Inr (if day t \<le> daysInMonth (year t) (month t) then Some t else None)"
      by (elim exE conjE)
    from s s'(1) have e: "s' = s" by simp
    from dim have n: "\<not> day t \<le> daysInMonth (year t) (month t)" by simp
    from s'(2) show ?thesis unfolding e using n by (elim disjE) simp_all
  qed
  then have a: "\<forall>g \<in> set DATE_FORMATS. \<forall>ref. parse s g ref = Inr None" by simp
  from all_fail[OF a, of clock] have "parseFlexibleDate clock s = Inr None"
    by (simp add: parseFlexibleDate_def)
  with s a show ?thesis by (intro exI conjI)
qed

text \<open>The token phase of a pattern of the list: no date, or the three numbers read.\<close>

lemma read_five:
  assumes tk: "tokenize f = [t1, l1, t2, l2, t3]" and ne: "f \<noteq> []"
    and k: "token_kind_of t1 = Modelled" "token_kind_of t2 = Modelled" "token_kind_of t3 = Modelled"
      "token_kind_of l1 = Literal" "token_kind_of l2 = Literal"
      "set (take 1 t2) \<inter> set (take 1 t1) = {}"
      "set (take 1 t3) \<inter> (set (take 1 t2) \<union> set (take 1 t1)) = {}"
    and sh: "\<And>s1 r1 s2 r2 s3 r3 a b c. run_parser t1 a = Some (s1, r1) \<Longrightarrow> run_parser t2 b = Some (s2, r2)
       \<Longrightarrow> run_parser t3 c = Some (s3, r3) \<Longrightarrow>
       \<exists>y m d. sort_key (\<lambda>st. - priority st) [s1, s2, s3] = [YearSetter y, MonthSetter m, DateSetter d]"
  shows "parse v f ref = Inr None
     \<or> (\<exists>y m d sts. parse_tokens (tokenize f) [] v [] = Inr (Some sts)
          \<and> set sts = {YearSetter y, MonthSetter m, DateSetter d}
          \<and> parse v f ref = Inr (apply_setters [YearSetter y, MonthSetter m, DateSetter d] ref))"
proof (rule parse_tokens_five_cases[OF k, of v])
  assume "parse_tokens [t1, l1, t2, l2, t3] [] v [] = Inr None"
  then have "parse v f ref = Inr None"
    by (simp add: parse_def tk ne del: parse_tokens.simps)
  then show ?thesis by (rule disjI1)
next
  fix s1 r1 s2 r2 s3 r3 a b c
  assume ok: "run_parser t1 a = Some (s1, r1)"
    "run_parser t2 b = Some (s2, r2)" "run_parser t3 c = Some (s3, r3)"
    "parse_tokens [t1, l1, t2, l2, t3] [] v [] = Inr (Some [s1, s2, s3])"
  from sh[OF ok(1,2,3)] obtain y m d where
    srt: "sort_key (\<lambda>st. - priority st) [s1, s2, s3] = [YearSetter y, MonthSetter m, DateSetter d]"
    by (elim exE)
  have "set [s1, s2, s3] = set (sort_key (\<lambda>st. - priority st) [s1, s2, s3])"
    by (simp only: set_sort)
  then have st: "set [s1, s2, s3] = {YearSetter y, MonthSetter m, DateSetter d}"
    unfolding srt by simp
  have tok: "parse_tokens (tokenize f) [] v [] = Inr (Some [s1, s2, s3])"
    unfolding tk by (rule ok(4))
  have "parse v f ref = Inr (apply_setters [YearSetter y, MonthSetter m, DateSetter d] ref)"
    by (simp add: parse_def tk ne ok(4) srt del: apply_setters.simps sort_key_simps parse_tokens.simps)
  with tok st show ?thesis by (intro disjI2 exI conjI)
qed

lemma read_dMy:
  assumes tk: "tokenize f = [t1, l, t2, l, ''yyyy'']" and ne: "f \<noteq> []"
    and t1: "t1 = ''d'' \<or> t1 = ''dd''" and t2: "t2 = ''M'' \<or> t2 = ''MM'' \<or> t2 = ''MMMM''"
    and l: "token_kind_of l = Literal"
  shows "parse v f ref = Inr None
     \<or> (\<exists>y m d sts. parse_tokens (tokenize f) [] v [] = Inr (Some sts)
          \<and> set sts = {YearSetter y, MonthSetter m, DateSetter d}
          \<and> parse v f ref = Inr (apply_setters [YearSetter y, MonthSetter m, DateSetter d] ref))"
proof (rule read_five[OF tk ne _ _ token_kinds(6) l l])
  show "token_kind_of t1 = Modelled" using t1 by (elim disjE) (simp_all add: token_kinds)
  show "token_kind_of t2 = Modelled" using t2 by (elim disjE) (simp_all add: token_kinds)
  show "set (take 1 t2) \<inter> set (take 1 t1) = {}"
    using t1 t2 by (elim disjE) simp_all
  show "set (take 1 ''yyyy'') \<inter> (set (take 1 t2) \<union> set (take 1 t1)) = {}"
    using t1 t2 by (elim disjE) simp_all
  show "\<exists>y m d. sort_key (\<lambda>st. - priority st) [s1, s2, s3]
          = [YearSetter y, MonthSetter m, DateSetter d]"
    if "run_parser t1 a = Some (s1, r1)" "run_parser t2 b = Some (s2, r2)"
      "run_parser ''yyyy'' c = Some (s3, r3)" for s1 r1 s2 r2 s3 r3 a b c
    by (rule sorted_dMy_ex[OF that t1 t2])
qed

lemma read_yMd:
  assumes tk: "tokenize f = [''yyyy'', l, ''MM'', l, ''dd'']" and ne: "f \<noteq> []"
    and l: "token_kind_of l = Literal"
  shows "parse v f ref = Inr None
     \<or> (\<exists>y m d sts. parse_tokens (tokenize f) [] v [] = Inr (Some sts)
          \<and> set sts = {YearSetter y, MonthSetter m, DateSetter d}
          \<and> parse v f ref = Inr (apply_setters [YearSetter y, MonthSetter m, DateSetter d] ref))"
proof (rule read_five[OF tk ne token_kinds(6,3,1) l l])
  show "set (take 1 ''MM'') \<inter> set (take 1 ''yyyy'') = {}" by simp
  show "set (take 1 ''dd'') \<inter> (set (take 1 ''MM'') \<union> set (take 1 ''yyyy'')) = {}" by simp
  show "\<exists>y m d. sort_key (\<lambda>st. - priority st) [s1, s2, s3]
          = [YearSetter y, MonthSetter m, DateSetter d]"
    if "run_parser ''yyyy'' a = Some (s1, r1)" "run_parser ''MM'' b = Some (s2, r2)"
      "run_parser ''dd'' c = Some (s3, r3)" for s1 r1 s2 r2 s3 r3 a b c
    by (rule sorted_yMd_ex[OF that])
qed

lemma read_DATE_FORMATS:
  assumes "f \<in> set DATE_FORMATS"
  shows "parse v f ref = Inr None
     \<or> (\<exists>y m d sts. parse_tokens (tokenize f) [] v [] = Inr (Some sts)
          \<and> set sts = {YearSetter y, MonthSetter m, DateSetter d}
          \<and> parse v f ref = Inr (apply_setters [YearSetter y, MonthSetter m, DateSetter d] ref))"
  using DATE_FORMATS_cases[OF assms]
proof (elim disjE)
  assume e: "f = ''dd.MM.yyyy''"
  show ?thesis unfolding e
    by (rule read_dMy[OF tokenize_DATE_FORMATS(1)]) (simp_all add: token_kinds)
next
  assume e: "f = ''dd-MM-yyyy''"
  show ?thesis unfolding e
    by (rule read_dMy[OF tokenize_DATE_FORMATS(2)]) (simp_all add: token_kinds)
next
  assume e: "f = ''dd/MM/yyyy''"
  show ?thesis unfolding e
    by (rule read_dMy[OF tokenize_DATE_FORMATS(3)]) (simp_all add: token_kinds)
next
  assume e: "f = ''d.M.yyyy''"
  show ?thesis unfolding e
    by (rule read_dMy[OF tokenize_DATE_FORMATS(4)]) (simp_all add: token_kinds)
next
  assume e: "f = ''d-M-yyyy''"
  show ?thesis unfolding e
    by (rule read_dMy[OF tokenize_DATE_FORMATS(5)]) (simp_all add: token_kinds)
next
  assume e: "f = ''d/M/yyyy''"
  show ?thesis unfolding e
    by (rule read_dMy[OF tokenize_DATE_FORMATS(6)]) (simp_all add: token_kinds)
next
  assume e: "f = ''dd MMMM yyyy''"
  show ?thesis unfolding e
    by (rule read_dMy[OF tokenize_DATE_FORMATS(7)]) (simp_all add: token_kinds)
next
  assume e: "f = ''d MMMM yyyy''"
  show ?thesis unfolding e
    by (rule read_dMy[OF tokenize_DATE_FORMATS(8)]) (simp_all add: token_kinds)
next
  assume e: "f = ''yyyy-MM-dd''"
  show ?thesis unfolding e
    by (rule read_yMd[OF tokenize_DATE_FORMATS(9)]) (simp_all add: token_kinds)
next
  assume e: "f = ''yyyy/MM/dd''"
  show ?thesis unfolding e
    by (rule read_yMd[OF tokenize_DATE_FORMATS(10)]) (simp_all add: token_kinds)
qed

text \<open>The date that the loop returns has the year, the month and the day that the tokens of
  one pattern read from the text.\<close>

lemma returned_fields_are_read:
  assumes "parseFlexibleDate clock v = Inr (Some t)"
  shows "\<exists>f \<in> set DATE_FORMATS. \<exists>sts. parse_tokens (tokenize f) [] v [] = Inr (Some sts)
     \<and> set sts = {YearSetter (year t), MonthSetter (month t), DateSetter (day t)}"
proof -
  from assms have "snd (parse_loop clock 0 DATE_FORMATS v) = Inr (Some t)"
    by (simp add: parseFlexibleDate_def parseFlexibleDate_run_def)
  with parse_loop_Some_iff[OF DATE_FORMATS_total, where clock = clock and i = 0 and d = t]
  obtain k where k: "k < length DATE_FORMATS" "parse v (DATE_FORMATS ! k) (clock k) = Inr (Some t)"
    by auto
  from k(1) have mem: "DATE_FORMATS ! k \<in> set DATE_FORMATS" by (rule nth_mem)
  from read_DATE_FORMATS[OF mem, of v "clock k"] k(2)
  obtain y m d sts where r: "parse_tokens (tokenize (DATE_FORMATS ! k)) [] v [] = Inr (Some sts)"
    "set sts = {YearSetter y, MonthSetter m, DateSetter d}"
    "apply_setters [YearSetter y, MonthSetter m, DateSetter d] (clock k) = Some t"
    by (elim disjE exE conjE) simp_all
  from r(3) have "t = \<lparr>year = y, month = m, day = d, tod = 0\<rparr>"
    unfolding apply_setters_ymd by (simp split: if_splits)
  then have e: "year t = y" "month t = m" "day t = d" by simp_all
  from r(1,2) mem show ?thesis unfolding e by (intro bexI exI conjI)
qed

text \<open>The same for the first pattern, with the text written out.\<close>

lemma nonexistent_day_dotted:
  assumes "1 \<le> y" "y \<le> 9999" "1 \<le> m" "m \<le> 12" "1 \<le> d" "d \<le> 31"
    and "daysInMonth y (m - 1) < d"
  shows "parseFlexibleDate clock
           (addLeadingZeros d 2 @ ''.'' @ addLeadingZeros m 2 @ ''.'' @ addLeadingZeros y 4)
         = Inr None"
proof -
  define t where "t = \<lparr>year = y, month = m - 1, day = d, tod = 0\<rparr>"
  have f: "''dd.MM.yyyy'' \<in> set DATE_FORMATS" by (simp add: DATE_FORMATS_def)
  from assms have "\<exists>s. format t ''dd.MM.yyyy'' = Inr s
     \<and> (\<forall>g \<in> set DATE_FORMATS. \<forall>ref. parse s g ref = Inr None)
     \<and> parseFlexibleDate clock s = Inr None"
    by (intro nonexistent_day_all_patterns[OF _ _ _ _ _ _ _ _ f]) (simp_all add: t_def)
  then obtain s where s: "format t ''dd.MM.yyyy'' = Inr s" "parseFlexibleDate clock s = Inr None"
    by (elim exE conjE)
  from s(1) assms(1) have "s = addLeadingZeros d 2 @ ''.'' @ addLeadingZeros m 2 @ ''.'' @ addLeadingZeros y 4"
    unfolding format_dd_MM_yyyy by (simp add: t_def)
  with s(2) show ?thesis by simp
qed

section \<open>The claims\<close>

subsection \<open>C1: the calendar breakdown\<close>

text \<open>
  Claim C1 says that the months and days are counted from the selected date advanced by
  whole years and months with calendar arithmetic, so that 31 January plus one month is
  28 (or 29) February and never a day of March. The code does otherwise. With the
  selected date 31 January 2023 and today 1 March 2023 it finds no complete year and one
  complete month, then advances the running date with \<^verbatim>\<open>setMonth\<close>: 31 January plus one
  month is "31 February", which rolls over to 3 March, past today, so \<open>days\<close> is \<open>- 2\<close>
  (from 28 February it would be 1). Likewise \<^verbatim>\<open>setFullYear\<close> advances 29 February 2020 by
  one year to 1 March 2021, not 28 February 2021, so on 1 March 2021 zero days remain.
\<close>

theorem month_step_overflows_past_february:
  "remainingAfterYears \<lparr>year = 2023, month = 2, day = 1, tod = 0\<rparr>
       \<lparr>year = 2023, month = 0, day = 31, tod = 0\<rparr>
     = \<lparr>year = 2023, month = 0, day = 31, tod = 0\<rparr>
   \<and> differenceInMonths \<lparr>year = 2023, month = 2, day = 1, tod = 0\<rparr>
       \<lparr>year = 2023, month = 0, day = 31, tod = 0\<rparr> = 1
   \<and> remainingAfterMonths \<lparr>year = 2023, month = 2, day = 1, tod = 0\<rparr>
       \<lparr>year = 2023, month = 0, day = 31, tod = 0\<rparr>
     = \<lparr>year = 2023, month = 2, day = 3, tod = 0\<rparr>
   \<and> days (period_between \<lparr>year = 2023, month = 2, day = 1, tod = 0\<rparr>
       \<lparr>year = 2023, month = 0, day = 31, tod = 0\<rparr>) = - 2
   \<and> remainingAfterYears \<lparr>year = 2021, month = 2, day = 1, tod = 0\<rparr>
       \<lparr>year = 2020, month = 1, day = 29, tod = 0\<rparr>
     = \<lparr>year = 2021, month = 2, day = 1, tod = 0\<rparr>
   \<and> days (period_between \<lparr>year = 2021, month = 2, day = 1, tod = 0\<rparr>
       \<lparr>year = 2020, month = 1, day = 29, tod = 0\<rparr>) = 0"
  by code_simp

subsection \<open>C2: signs of the breakdown\<close>

text \<open>
  Claim C2 says that years, months and days are each non-negative when today is not
  before the selected date. On the code this fails: with the selected date 31 January
  2023 and a clock reading of 1 March 2023, 10:00 (today, at midnight, is later than the
  selected date) the period is 0 years, 1 month and \<open>- 2\<close> days.
\<close>

theorem days_negative_after_january_31:
  "valid_date \<lparr>year = 2023, month = 0, day = 31, tod = 0\<rparr>
   \<and> valid_date \<lparr>year = 2023, month = 2, day = 1, tod = 36000000\<rparr>
   \<and> compareAsc (setHours0 \<lparr>year = 2023, month = 2, day = 1, tod = 36000000\<rparr>)
        \<lparr>year = 2023, month = 0, day = 31, tod = 0\<rparr> = 1
   \<and> app_period \<lparr>year = 2023, month = 2, day = 1, tod = 36000000\<rparr>
        \<lparr>year = 2023, month = 0, day = 31, tod = 0\<rparr>
     = \<lparr>years = 0, months = 1, days = - 2, weeks = 4, totalDays = 29\<rparr>"
  by code_simp

subsection \<open>C3: the first matching pattern wins\<close>

text \<open>
  Claim C3. The parser tries the ten patterns of \<open>DATE_FORMATS\<close> in list order and returns
  the date of the first pattern whose parse is a valid date: it returns \<open>d\<close> exactly when
  some pattern \<open>k\<close> yields \<open>d\<close> and every pattern before \<open>k\<close> yields the Invalid Date, and
  it returns \<^verbatim>\<open>null\<close> exactly when every pattern yields the Invalid Date; the calls of
  \<^verbatim>\<open>parse\<close> it makes are a prefix of the list, in order. On \<^verbatim>\<open>"15/03/2023"\<close> the first
  two patterns fail and the third, \<^verbatim>\<open>dd/MM/yyyy\<close>, gives 15 March 2023.
\<close>

theorem first_matching_pattern_wins:
  "DATE_FORMATS = [''dd.MM.yyyy'', ''dd-MM-yyyy'', ''dd/MM/yyyy'', ''d.M.yyyy'', ''d-M-yyyy'',
      ''d/M/yyyy'', ''dd MMMM yyyy'', ''d MMMM yyyy'', ''yyyy-MM-dd'', ''yyyy/MM/dd'']
   \<and> (parseFlexibleDate clock v = Inr (Some d) \<longleftrightarrow>
        (\<exists>k<length DATE_FORMATS. parse v (DATE_FORMATS ! k) (clock k) = Inr (Some d)
           \<and> (\<forall>j<k. parse v (DATE_FORMATS ! j) (clock j) = Inr None)))
   \<and> (parseFlexibleDate clock v = Inr None \<longleftrightarrow>
        (\<forall>k<length DATE_FORMATS. parse v (DATE_FORMATS ! k) (clock k) = Inr None))
   \<and> fst (parseFlexibleDate_run clock v)
        = map (Pair v) (take (length (fst (parseFlexibleDate_run clock v))) DATE_FORMATS)
   \<and> fst (parseFlexibleDate_run clock ''15/03/2023'')
        = [(''15/03/2023'', ''dd.MM.yyyy''), (''15/03/2023'', ''dd-MM-yyyy''),
           (''15/03/2023'', ''dd/MM/yyyy'')]
   \<and> parseFlexibleDate clock ''15/03/2023''
        = Inr (Some \<lparr>year = 2023, month = 2, day = 15, tod = 0\<rparr>)"
proof -
  have a: "parseFlexibleDate clock v = Inr (Some d) \<longleftrightarrow>
        (\<exists>k<length DATE_FORMATS. parse v (DATE_FORMATS ! k) (clock k) = Inr (Some d)
           \<and> (\<forall>j<k. parse v (DATE_FORMATS ! j) (clock j) = Inr None))"
    using parse_loop_Some_iff[OF DATE_FORMATS_total[of v], where clock = clock and i = 0 and d = d]
    by (simp add: parseFlexibleDate_def parseFlexibleDate_run_def)
  have b: "parseFlexibleDate clock v = Inr None \<longleftrightarrow>
        (\<forall>k<length DATE_FORMATS. parse v (DATE_FORMATS ! k) (clock k) = Inr None)"
    using parse_loop_None_iff[OF DATE_FORMATS_total[of v], where clock = clock and i = 0]
    by (simp add: parseFlexibleDate_def parseFlexibleDate_run_def)
  have c: "fst (parseFlexibleDate_run clock v)
        = map (Pair v) (take (length (fst (parseFlexibleDate_run clock v))) DATE_FORMATS)"
    unfolding parseFlexibleDate_run_def by (rule parse_loop_calls_prefix)
  have r: "parseFlexibleDate_run clock ''15/03/2023''
        = ([(''15/03/2023'', ''dd.MM.yyyy''), (''15/03/2023'', ''dd-MM-yyyy''),
            (''15/03/2023'', ''dd/MM/yyyy'')],
           Inr (Some \<lparr>year = 2023, month = 2, day = 15, tod = 0\<rparr>))"
    by (simp add: parseFlexibleDate_run_def DATE_FORMATS_def parse_loop_step
        fail_15_03_2023 ok_15_03_2023)
  from a b c show ?thesis by (simp add: r parseFlexibleDate_def) (simp add: DATE_FORMATS_def)
qed

theorem first_matching_pattern_wins_witness:
  "parseFlexibleDate (clock_at \<lparr>year = 2026, month = 10, day = 2, tod = 0\<rparr>) ''15/03/2023''
     = Inr (Some \<lparr>year = 2023, month = 2, day = 15, tod = 0\<rparr>)
   \<and> DATE_FORMATS ! 2 = ''dd/MM/yyyy''
   \<and> parse ''15/03/2023'' (DATE_FORMATS ! 2) \<lparr>year = 2026, month = 10, day = 2, tod = 0\<rparr>
        = Inr (Some \<lparr>year = 2023, month = 2, day = 15, tod = 0\<rparr>)"
proof -
  from first_matching_pattern_wins[of "clock_at \<lparr>year = 2026, month = 10, day = 2, tod = 0\<rparr>"
      "''15/03/2023''" "\<lparr>year = 2023, month = 2, day = 15, tod = 0\<rparr>"]
  have "parseFlexibleDate (clock_at \<lparr>year = 2026, month = 10, day = 2, tod = 0\<rparr>) ''15/03/2023''
     = Inr (Some \<lparr>year = 2023, month = 2, day = 15, tod = 0\<rparr>)"
    by (elim conjE)
  then show ?thesis by (simp add: DATE_FORMATS_def ok_15_03_2023)
qed

subsection \<open>C4: format, then parse\<close>

text \<open>
  Claim C4, amended. For every pattern of \<open>DATE_FORMATS\<close> and every valid calendar date
  at local midnight whose year is between 1 and 9999: formatting the date with the
  pattern (Romanian month names) gives a text that the same pattern parses back to the
  date; and if every earlier pattern either fails on that text or gives the same date,
  the flexible parser returns the date.
\<close>

theorem format_parse_round_trip:
  assumes "valid_date t" "tod t = 0" "1 \<le> year t" "year t \<le> 9999"
    and "k < length DATE_FORMATS"
  shows "\<exists>s. format t (DATE_FORMATS ! k) = Inr s
      \<and> (\<forall>ref. parse s (DATE_FORMATS ! k) ref = Inr (Some t))
      \<and> ((\<forall>j<k. parse s (DATE_FORMATS ! j) (clock j) = Inr None
                \<or> parse s (DATE_FORMATS ! j) (clock j) = Inr (Some t))
           \<longrightarrow> parseFlexibleDate clock s = Inr (Some t))"
proof -
  from assms(5) have "DATE_FORMATS ! k \<in> set DATE_FORMATS" by (rule nth_mem)
  from format_then_parse[OF assms(1-4) this] obtain s
    where s: "format t (DATE_FORMATS ! k) = Inr s"
      "\<forall>ref. parse s (DATE_FORMATS ! k) ref = Inr (Some t)"
    by blast
  have "parseFlexibleDate clock s = Inr (Some t)"
    if "\<forall>j<k. parse s (DATE_FORMATS ! j) (clock j) = Inr None
              \<or> parse s (DATE_FORMATS ! j) (clock j) = Inr (Some t)"
    using parse_loop_first_match[of k DATE_FORMATS s clock 0 t] assms(5) s(2) that
    by (simp add: parseFlexibleDate_def parseFlexibleDate_run_def)
  with s show ?thesis by blast
qed

theorem format_parse_round_trip_witness:
  "valid_date \<lparr>year = 2023, month = 2, day = 5, tod = 0\<rparr>
   \<and> tod \<lparr>year = 2023, month = 2, day = 5, tod = 0\<rparr> = 0
   \<and> 1 \<le> year \<lparr>year = 2023, month = 2, day = 5, tod = 0\<rparr>
   \<and> year \<lparr>year = 2023, month = 2, day = 5, tod = 0\<rparr> \<le> 9999
   \<and> 1 < length DATE_FORMATS
   \<and> format \<lparr>year = 2023, month = 2, day = 5, tod = 0\<rparr> (DATE_FORMATS ! 1) = Inr ''05-03-2023''
   \<and> parse ''05-03-2023'' (DATE_FORMATS ! 0) (clock_at \<lparr>year = 2026, month = 10, day = 2, tod = 0\<rparr> 0)
        = Inr None
   \<and> parseFlexibleDate (clock_at \<lparr>year = 2026, month = 10, day = 2, tod = 0\<rparr>) ''05-03-2023''
        = Inr (Some \<lparr>year = 2023, month = 2, day = 5, tod = 0\<rparr>)"
proof -
  have v: "valid_date \<lparr>year = 2023, month = 2, day = 5, tod = 0\<rparr>"
    by (simp add: valid_date_def daysInMonth_def)
  have k: "1 < length DATE_FORMATS" by (simp add: DATE_FORMATS_def)
  have f: "format \<lparr>year = 2023, month = 2, day = 5, tod = 0\<rparr> (DATE_FORMATS ! 1) = Inr ''05-03-2023''"
    by (simp add: DATE_FORMATS_def format_def tokenize_DATE_FORMATS format_token_def token_kinds
        addLeadingZeros_def string_of_nat.simps digit_char_def)
  have p: "parse ''05-03-2023'' (DATE_FORMATS ! 0) ref = Inr None" for ref
    by (simp add: DATE_FORMATS_def parse_eval del: apply_setters.simps sort_key_simps)
  from format_parse_round_trip[OF v _ _ _ k, of "clock_at \<lparr>year = 2026, month = 10, day = 2, tod = 0\<rparr>"]
  obtain s where s: "format \<lparr>year = 2023, month = 2, day = 5, tod = 0\<rparr> (DATE_FORMATS ! 1) = Inr s"
    "(\<forall>j<1. parse s (DATE_FORMATS ! j) (clock_at \<lparr>year = 2026, month = 10, day = 2, tod = 0\<rparr> j) = Inr None
        \<or> parse s (DATE_FORMATS ! j) (clock_at \<lparr>year = 2026, month = 10, day = 2, tod = 0\<rparr> j)
            = Inr (Some \<lparr>year = 2023, month = 2, day = 5, tod = 0\<rparr>))
      \<longrightarrow> parseFlexibleDate (clock_at \<lparr>year = 2026, month = 10, day = 2, tod = 0\<rparr>) s
            = Inr (Some \<lparr>year = 2023, month = 2, day = 5, tod = 0\<rparr>)"
    by auto
  from s(1) f have e: "s = ''05-03-2023''" by simp
  from s(2) p have "parseFlexibleDate (clock_at \<lparr>year = 2026, month = 10, day = 2, tod = 0\<rparr>) ''05-03-2023''
        = Inr (Some \<lparr>year = 2023, month = 2, day = 5, tod = 0\<rparr>)"
    unfolding e by simp
  with v k f p show ?thesis by simp
qed

theorem five_digit_year_is_not_parsed_back:
  "valid_date \<lparr>year = 10000, month = 0, day = 1, tod = 0\<rparr>
   \<and> format \<lparr>year = 10000, month = 0, day = 1, tod = 0\<rparr> (DATE_FORMATS ! 0) = Inr ''01.01.10000''
   \<and> parseFlexibleDate (clock_at \<lparr>year = 2026, month = 10, day = 2, tod = 0\<rparr>) ''01.01.10000''
        = Inr None"
proof -
  have f: "format \<lparr>year = 10000, month = 0, day = 1, tod = 0\<rparr> (DATE_FORMATS ! 0) = Inr ''01.01.10000''"
    by (simp add: DATE_FORMATS_def format_def tokenize_DATE_FORMATS format_token_def token_kinds
        addLeadingZeros_def string_of_nat.simps digit_char_def)
  show ?thesis
    by (simp add: f valid_date_def daysInMonth_def parseFlexibleDate_def all_fail[OF fail_01_01_10000])
qed

subsection \<open>C5: days the calendar does not have\<close>

text \<open>
  Claim C5. A text that names a day the calendar does not have is rejected, not wrapped
  into the next month: \<^verbatim>\<open>"29.02.2024"\<close> (a leap year) parses to 29 February 2024,
  while \<^verbatim>\<open>"29.02.2023"\<close> and \<^verbatim>\<open>"31.02.2023"\<close> give \<^verbatim>\<open>null\<close>; and every date the
  parser returns, for any text, is a valid calendar date.

  No date is wrapped, for any text: the date that the parser returns has exactly the year,
  the month and the day number that the tokens of one of the patterns read from the text
  (\<^verbatim>\<open>parse_tokens\<close> is the token phase of \<^verbatim>\<open>parse\<close>, before the date is built), so
  a day number is never carried into another month.

  And every day that its month does not have is refused, in every pattern: for a year from
  1 to 9999, a month and a day number from 1 to 31 that is greater than the length of the
  month in that year, the text that pattern \<^verbatim>\<open>f\<close> writes for these three numbers is given
  \<^verbatim>\<open>null\<close> by every pattern of the list and by \<^verbatim>\<open>parseFlexibleDate\<close>. Here \<^verbatim>\<open>t\<close>
  is a record of three numbers, which no JavaScript \<^verbatim>\<open>Date\<close> can hold, and
  \<^verbatim>\<open>format t f\<close> only writes its fields; for \<^verbatim>\<open>dd.MM.yyyy\<close> the text is also written
  out, as the padded day, month and year joined by dots.
\<close>

theorem leap_day_accepted_only_in_leap_years:
  "parseFlexibleDate clock ''29.02.2024'' = Inr (Some \<lparr>year = 2024, month = 1, day = 29, tod = 0\<rparr>)
   \<and> parseFlexibleDate clock ''29.02.2023'' = Inr None
   \<and> parseFlexibleDate clock ''31.02.2023'' = Inr None
   \<and> (\<forall>v d. parseFlexibleDate clock v = Inr (Some d) \<longrightarrow> valid_date d)
   \<and> (\<forall>v d. parseFlexibleDate clock v = Inr (Some d) \<longrightarrow>
        (\<exists>f \<in> set DATE_FORMATS. \<exists>sts. parse_tokens (tokenize f) [] v [] = Inr (Some sts)
           \<and> set sts = {YearSetter (year d), MonthSetter (month d), DateSetter (day d)}))
   \<and> (\<forall>t f. 1 \<le> year t \<and> year t \<le> 9999 \<and> 0 \<le> month t \<and> month t \<le> 11
          \<and> 1 \<le> day t \<and> day t \<le> 31 \<and> tod t = 0
          \<and> daysInMonth (year t) (month t) < day t \<and> f \<in> set DATE_FORMATS \<longrightarrow>
        (\<exists>s. format t f = Inr s
           \<and> (\<forall>g \<in> set DATE_FORMATS. \<forall>ref. parse s g ref = Inr None)
           \<and> parseFlexibleDate clock s = Inr None))
   \<and> (\<forall>y m d. 1 \<le> y \<and> y \<le> 9999 \<and> 1 \<le> m \<and> m \<le> 12 \<and> 1 \<le> d \<and> d \<le> 31
          \<and> daysInMonth y (m - 1) < d \<longrightarrow>
        parseFlexibleDate clock
          (addLeadingZeros d 2 @ ''.'' @ addLeadingZeros m 2 @ ''.'' @ addLeadingZeros y 4)
        = Inr None)"
proof -
  have a: "parseFlexibleDate clock ''29.02.2024'' = Inr (Some \<lparr>year = 2024, month = 1, day = 29, tod = 0\<rparr>)"
    by (simp add: run_eval ok_29_02_2024)
  have b: "parseFlexibleDate clock ''29.02.2023'' = Inr None"
    by (simp add: parseFlexibleDate_def all_fail[OF fail_29_02_2023])
  have c: "parseFlexibleDate clock ''31.02.2023'' = Inr None"
    by (simp add: parseFlexibleDate_def all_fail[OF fail_31_02_2023])
  have d: "\<forall>v d. parseFlexibleDate clock v = Inr (Some d) \<longrightarrow> valid_date d"
    using parseFlexibleDate_valid by blast
  have e: "\<forall>v d. parseFlexibleDate clock v = Inr (Some d) \<longrightarrow>
        (\<exists>f \<in> set DATE_FORMATS. \<exists>sts. parse_tokens (tokenize f) [] v [] = Inr (Some sts)
           \<and> set sts = {YearSetter (year d), MonthSetter (month d), DateSetter (day d)})"
    by (intro allI impI) (rule returned_fields_are_read)
  have f: "\<forall>t f. 1 \<le> year t \<and> year t \<le> 9999 \<and> 0 \<le> month t \<and> month t \<le> 11
          \<and> 1 \<le> day t \<and> day t \<le> 31 \<and> tod t = 0
          \<and> daysInMonth (year t) (month t) < day t \<and> f \<in> set DATE_FORMATS \<longrightarrow>
        (\<exists>s. format t f = Inr s
           \<and> (\<forall>g \<in> set DATE_FORMATS. \<forall>ref. parse s g ref = Inr None)
           \<and> parseFlexibleDate clock s = Inr None)"
  proof (intro allI impI, elim conjE)
    fix t :: date and f :: string
    assume "1 \<le> year t" "year t \<le> 9999" "0 \<le> month t" "month t \<le> 11"
      "1 \<le> day t" "day t \<le> 31" "tod t = 0"
      "daysInMonth (year t) (month t) < day t" "f \<in> set DATE_FORMATS"
    then show "\<exists>s. format t f = Inr s
           \<and> (\<forall>g \<in> set DATE_FORMATS. \<forall>ref. parse s g ref = Inr None)
           \<and> parseFlexibleDate clock s = Inr None"
      by (intro nonexistent_day_all_patterns)
  qed
  have g: "\<forall>y m d. 1 \<le> y \<and> y \<le> 9999 \<and> 1 \<le> m \<and> m \<le> 12 \<and> 1 \<le> d \<and> d \<le> 31
          \<and> daysInMonth y (m - 1) < d \<longrightarrow>
        parseFlexibleDate clock
          (addLeadingZeros d 2 @ ''.'' @ addLeadingZeros m 2 @ ''.'' @ addLeadingZeros y 4)
        = Inr None"
  proof (intro allI impI, elim conjE)
    fix y m d :: int
    assume "1 \<le> y" "y \<le> 9999" "1 \<le> m" "m \<le> 12" "1 \<le> d" "d \<le> 31"
      "daysInMonth y (m - 1) < d"
    then show "parseFlexibleDate clock
          (addLeadingZeros d 2 @ ''.'' @ addLeadingZeros m 2 @ ''.'' @ addLeadingZeros y 4)
        = Inr None"
      by (rule nonexistent_day_dotted)
  qed
  from a b c d e f g show ?thesis by (intro conjI)
qed

theorem leap_day_accepted_only_in_leap_years_witness:
  "parseFlexibleDate (clock_at \<lparr>year = 2026, month = 10, day = 2, tod = 0\<rparr>) ''29.02.2024''
     = Inr (Some \<lparr>year = 2024, month = 1, day = 29, tod = 0\<rparr>)
   \<and> valid_date \<lparr>year = 2024, month = 1, day = 29, tod = 0\<rparr>
   \<and> parseFlexibleDate (clock_at \<lparr>year = 2026, month = 10, day = 2, tod = 0\<rparr>) ''29.02.2023''
     = Inr None
   \<and> (\<exists>f \<in> set DATE_FORMATS. \<exists>sts. parse_tokens (tokenize f) [] ''29.02.2024'' [] = Inr (Some sts)
         \<and> set sts = {YearSetter 2024, MonthSetter 1, DateSetter 29})
   \<and> daysInMonth 2023 1 < 30
   \<and> (\<exists>s. format \<lparr>year = 2023, month = 1, day = 30, tod = 0\<rparr> ''yyyy-MM-dd'' = Inr s
         \<and> (\<forall>ref. parse s ''yyyy-MM-dd'' ref = Inr None)
         \<and> parseFlexibleDate (clock_at \<lparr>year = 2026, month = 10, day = 2, tod = 0\<rparr>) s = Inr None)
   \<and> parseFlexibleDate (clock_at \<lparr>year = 2026, month = 10, day = 2, tod = 0\<rparr>) ''30.02.2023''
     = Inr None"
proof -
  let ?c = "clock_at \<lparr>year = 2026, month = 10, day = 2, tod = 0\<rparr>"
  let ?D = "\<lparr>year = 2024, month = 1, day = 29, tod = 0\<rparr>"
  let ?t = "\<lparr>year = 2023, month = 1, day = 30, tod = 0\<rparr>"
  note T = leap_day_accepted_only_in_leap_years[of ?c]
  from T have a: "parseFlexibleDate ?c ''29.02.2024'' = Inr (Some ?D)" by (elim conjE)
  from T have b: "parseFlexibleDate ?c ''29.02.2023'' = Inr None" by (elim conjE)
  from T have v: "\<forall>v d. parseFlexibleDate ?c v = Inr (Some d) \<longrightarrow> valid_date d" by (elim conjE)
  from T have r: "\<forall>v d. parseFlexibleDate ?c v = Inr (Some d) \<longrightarrow>
        (\<exists>f \<in> set DATE_FORMATS. \<exists>sts. parse_tokens (tokenize f) [] v [] = Inr (Some sts)
           \<and> set sts = {YearSetter (year d), MonthSetter (month d), DateSetter (day d)})"
    by (elim conjE)
  from T have n: "\<forall>t f. 1 \<le> year t \<and> year t \<le> 9999 \<and> 0 \<le> month t \<and> month t \<le> 11
          \<and> 1 \<le> day t \<and> day t \<le> 31 \<and> tod t = 0
          \<and> daysInMonth (year t) (month t) < day t \<and> f \<in> set DATE_FORMATS \<longrightarrow>
        (\<exists>s. format t f = Inr s
           \<and> (\<forall>g \<in> set DATE_FORMATS. \<forall>ref. parse s g ref = Inr None)
           \<and> parseFlexibleDate ?c s = Inr None)"
    by (elim conjE)
  from T have x: "\<forall>y m d. 1 \<le> y \<and> y \<le> 9999 \<and> 1 \<le> m \<and> m \<le> 12 \<and> 1 \<le> d \<and> d \<le> 31
          \<and> daysInMonth y (m - 1) < d \<longrightarrow>
        parseFlexibleDate ?c
          (addLeadingZeros d 2 @ ''.'' @ addLeadingZeros m 2 @ ''.'' @ addLeadingZeros y 4)
        = Inr None"
    by (elim conjE)
  from v[rule_format, OF a] have a': "valid_date ?D" .
  from r[rule_format, OF a]
  have r': "\<exists>f \<in> set DATE_FORMATS. \<exists>sts. parse_tokens (tokenize f) [] ''29.02.2024'' [] = Inr (Some sts)
         \<and> set sts = {YearSetter 2024, MonthSetter 1, DateSetter 29}" by simp
  have dm: "daysInMonth 2023 1 < 30" by (simp add: daysInMonth_def isLeapYearIndex_def)
  have mem: "''yyyy-MM-dd'' \<in> set DATE_FORMATS" by (simp add: DATE_FORMATS_def)
  from n[rule_format, of ?t "''yyyy-MM-dd''"] dm mem
  obtain s where s: "format ?t ''yyyy-MM-dd'' = Inr s"
    "\<forall>g \<in> set DATE_FORMATS. \<forall>ref. parse s g ref = Inr None" "parseFlexibleDate ?c s = Inr None"
    by (simp del: set_simps) (elim exE conjE)
  from s(2) mem have "\<forall>ref. parse s ''yyyy-MM-dd'' ref = Inr None" by (rule bspec)
  with s(1,3) have n': "\<exists>s. format ?t ''yyyy-MM-dd'' = Inr s
         \<and> (\<forall>ref. parse s ''yyyy-MM-dd'' ref = Inr None) \<and> parseFlexibleDate ?c s = Inr None"
    by (intro exI conjI)
  have lit: "addLeadingZeros 30 2 @ ''.'' @ addLeadingZeros 2 2 @ ''.'' @ addLeadingZeros 2023 4
      = ''30.02.2023''" by code_simp
  from x[rule_format, of 2023 2 30] dm
  have x': "parseFlexibleDate ?c ''30.02.2023'' = Inr None" unfolding lit by simp
  from a a' b r' dm n' x' show ?thesis by (intro conjI)
qed

subsection \<open>C6: empty and blank input\<close>

text \<open>
  Claim C6, amended. For the empty input string the search handler and the blur handler
  return at once: no call of \<^verbatim>\<open>parse\<close> is made and the state is unchanged. A non-empty
  input of white space only is not short-circuited: it is trimmed to the empty string,
  which is tried against all ten patterns in order; none matches, so the search handler
  sets the error message and the blur handler leaves the state as it was.
\<close>

theorem empty_input_short_circuits:
  "(inputValue st = [] \<longrightarrow>
      handleSearch_run clock st = ([], Inr st) \<and> onBlur_run clock st = ([], Inr st))
   \<and> (inputValue st \<noteq> [] \<and> (\<forall>c \<in> set (inputValue st). is_whitespace c) \<longrightarrow>
      handleSearch_run clock st
        = (map (Pair []) DATE_FORMATS,
           Inr (st\<lparr>error := Some ''Invalid date. Please use a valid format.''\<rparr>))
      \<and> onBlur_run clock st = (map (Pair []) DATE_FORMATS, Inr st))"
  by (simp add: handleSearch_run_def onBlur_run_def trim_whitespace all_fail[OF fail_empty])

theorem empty_input_short_circuits_witness:
  "inputValue \<lparr>selectedDate = \<lparr>year = 2026, month = 10, day = 2, tod = 0\<rparr>,
       inputValue = [], isOpen = False, error = None\<rparr> = []
   \<and> handleSearch_run (clock_at \<lparr>year = 2026, month = 10, day = 2, tod = 0\<rparr>)
        \<lparr>selectedDate = \<lparr>year = 2026, month = 10, day = 2, tod = 0\<rparr>,
         inputValue = [], isOpen = False, error = None\<rparr>
      = ([], Inr \<lparr>selectedDate = \<lparr>year = 2026, month = 10, day = 2, tod = 0\<rparr>,
         inputValue = [], isOpen = False, error = None\<rparr>)
   \<and> list_all is_whitespace ''   ''
   \<and> onBlur_run (clock_at \<lparr>year = 2026, month = 10, day = 2, tod = 0\<rparr>)
        \<lparr>selectedDate = \<lparr>year = 2026, month = 10, day = 2, tod = 0\<rparr>,
         inputValue = ''   '', isOpen = False, error = None\<rparr>
      = (map (Pair []) DATE_FORMATS,
         Inr \<lparr>selectedDate = \<lparr>year = 2026, month = 10, day = 2, tod = 0\<rparr>,
         inputValue = ''   '', isOpen = False, error = None\<rparr>)"
  using
    empty_input_short_circuits[of "\<lparr>selectedDate = \<lparr>year = 2026, month = 10, day = 2, tod = 0\<rparr>,
         inputValue = [], isOpen = False, error = None\<rparr>"
      "clock_at \<lparr>year = 2026, month = 10, day = 2, tod = 0\<rparr>"]
    empty_input_short_circuits[of "\<lparr>selectedDate = \<lparr>year = 2026, month = 10, day = 2, tod = 0\<rparr>,
         inputValue = ''   '', isOpen = False, error = None\<rparr>"
      "clock_at \<lparr>year = 2026, month = 10, day = 2, tod = 0\<rparr>"]
  by (simp add: is_whitespace_def)

theorem whitespace_input_is_parsed:
  "list_all is_whitespace ''   ''
   \<and> fst (handleSearch_run (clock_at \<lparr>year = 2026, month = 10, day = 2, tod = 0\<rparr>)
        \<lparr>selectedDate = \<lparr>year = 2026, month = 10, day = 2, tod = 0\<rparr>,
         inputValue = ''   '', isOpen = False, error = None\<rparr>)
      = [([], ''dd.MM.yyyy''), ([], ''dd-MM-yyyy''), ([], ''dd/MM/yyyy''), ([], ''d.M.yyyy''),
         ([], ''d-M-yyyy''), ([], ''d/M/yyyy''), ([], ''dd MMMM yyyy''), ([], ''d MMMM yyyy''),
         ([], ''yyyy-MM-dd''), ([], ''yyyy/MM/dd'')]
   \<and> handleSearch (clock_at \<lparr>year = 2026, month = 10, day = 2, tod = 0\<rparr>)
        \<lparr>selectedDate = \<lparr>year = 2026, month = 10, day = 2, tod = 0\<rparr>,
         inputValue = ''   '', isOpen = False, error = None\<rparr>
      = Inr \<lparr>selectedDate = \<lparr>year = 2026, month = 10, day = 2, tod = 0\<rparr>,
         inputValue = ''   '', isOpen = False,
         error = Some ''Invalid date. Please use a valid format.''\<rparr>"
proof -
  have t: "trim ''   '' = []" by (simp add: trim_def is_whitespace_def)
  show ?thesis
    by (simp add: handleSearch_def handleSearch_run_def t all_fail[OF fail_empty] is_whitespace_def)
      (simp add: DATE_FORMATS_def)
qed

subsection \<open>C7: the week window\<close>

text \<open>
  Claim C7. For every (valid) selected date, \<open>weekDays\<close> has exactly seven entries; each
  is a valid calendar date at local midnight; each entry is the calendar day after the
  one before it (the day number grows by one); the first entry is a Monday
  (\<open>getDay = 1\<close>) that lies on or at most six days before the selected date, and the
  last entry is a Sunday (\<open>getDay = 0\<close>).
\<close>

theorem week_window:
  assumes "valid_date selected"
  shows "length (weekDays selected) = 7
     \<and> (\<forall>i<7. valid_date (weekDays selected ! i) \<and> tod (weekDays selected ! i) = 0)
     \<and> (\<forall>i<6. dayNumber (weekDays selected ! (i + 1)) = dayNumber (weekDays selected ! i) + 1)
     \<and> getDay (weekDays selected ! 0) = 1
     \<and> getDay (weekDays selected ! 6) = 0
     \<and> dayNumber (weekDays selected ! 0) \<le> dayNumber selected
     \<and> dayNumber selected < dayNumber (weekDays selected ! 0) + 7"
proof -
  note p = weekDays_nth_props[OF assms]
  note w = weekStart_props[OF assms]
  have a: "length (weekDays selected) = 7" by (simp add: weekDays_def)
  have b: "\<forall>i<7. valid_date (weekDays selected ! i) \<and> tod (weekDays selected ! i) = 0"
    using p(2,3) by simp
  have c: "\<forall>i<6. dayNumber (weekDays selected ! (i + 1)) = dayNumber (weekDays selected ! i) + 1"
    using p(1) by simp
  have d0: "dayNumber (weekDays selected ! 0) = dayNumber (weekStart selected)"
    using p(1)[of 0] by simp
  have d: "getDay (weekDays selected ! 0) = 1"
    using w(5) unfolding getDay_def d0 .
  have d6: "dayNumber (weekDays selected ! 6) = dayNumber (weekStart selected) + 6"
    using p(1)[of 6] by simp
  have e: "getDay (weekDays selected ! 6) = 0"
    using w(5) unfolding getDay_def d6 by presburger
  have f: "dayNumber (weekDays selected ! 0) \<le> dayNumber selected"
    "dayNumber selected < dayNumber (weekDays selected ! 0) + 7"
    unfolding d0 w(1) by simp_all
  from a b c d e f show ?thesis by (intro conjI)
qed

theorem week_window_witness:
  "valid_date \<lparr>year = 2026, month = 10, day = 4, tod = 43200000\<rparr>
   \<and> length (weekDays \<lparr>year = 2026, month = 10, day = 4, tod = 43200000\<rparr>) = 7
   \<and> getDay (weekDays \<lparr>year = 2026, month = 10, day = 4, tod = 43200000\<rparr> ! 0) = 1
   \<and> getDay (weekDays \<lparr>year = 2026, month = 10, day = 4, tod = 43200000\<rparr> ! 6) = 0
   \<and> dayNumber (weekDays \<lparr>year = 2026, month = 10, day = 4, tod = 43200000\<rparr> ! 0)
        \<le> dayNumber \<lparr>year = 2026, month = 10, day = 4, tod = 43200000\<rparr>"
proof -
  have v: "valid_date \<lparr>year = 2026, month = 10, day = 4, tod = 43200000\<rparr>"
    by (simp add: valid_date_def daysInMonth_def)
  from week_window[OF v] v show ?thesis by simp
qed

subsection \<open>C8: determinism\<close>

text \<open>
  Claim C8. The result of the parser does not depend on the clock: two runs on the same
  text, with any two sequences of clock readings, make the same calls and return the
  same result; the run returns (no exception leaves it), and what it returns is one date
  or \<^verbatim>\<open>null\<close>.
\<close>

theorem parser_deterministic:
  "parseFlexibleDate clock v = parseFlexibleDate clock' v
   \<and> parseFlexibleDate_run clock v = parseFlexibleDate_run clock' v
   \<and> (\<exists>r. parseFlexibleDate clock v = Inr r)"
  using parseFlexibleDate_run_indep[of clock v clock'] parseFlexibleDate_returns[of clock v]
  by (simp add: parseFlexibleDate_def)

subsection \<open>C9: text that does not parse\<close>

text \<open>
  Claim C9, amended. The parser never raises; when no pattern matches it returns
  \<^verbatim>\<open>null\<close>. The search handler never raises either. For a non-empty input whose trimmed
  text no pattern matches, it sets the message
  \<^verbatim>\<open>"Invalid date. Please use a valid format."\<close> and changes nothing else: the input
  text and the selected date stay as they were.
\<close>

theorem unparseable_input_sets_message:
  "(\<exists>r. parseFlexibleDate clock v = Inr r)
   \<and> ((\<forall>k<length DATE_FORMATS. parse v (DATE_FORMATS ! k) (clock k) = Inr None)
        \<longrightarrow> parseFlexibleDate clock v = Inr None)
   \<and> (\<exists>st'. handleSearch clock st = Inr st')
   \<and> (inputValue st \<noteq> [] \<and> parseFlexibleDate clock (trim (inputValue st)) = Inr None \<longrightarrow>
        handleSearch clock st
          = Inr (st\<lparr>error := Some ''Invalid date. Please use a valid format.''\<rparr>))"
proof -
  obtain calls r where c: "parseFlexibleDate_run clock (trim (inputValue st)) = (calls, Inr r)"
    "parseFlexibleDate clock (trim (inputValue st)) = Inr r"
    by (rule run_cases)
  have a: "\<exists>st'. handleSearch clock st = Inr st'"
    by (cases r) (simp_all add: handleSearch_def handleSearch_run_def c)
  have b: "inputValue st \<noteq> [] \<and> parseFlexibleDate clock (trim (inputValue st)) = Inr None \<longrightarrow>
        handleSearch clock st
          = Inr (st\<lparr>error := Some ''Invalid date. Please use a valid format.''\<rparr>)"
    by (cases r) (simp_all add: handleSearch_def handleSearch_run_def c)
  have n: "(\<forall>k<length DATE_FORMATS. parse v (DATE_FORMATS ! k) (clock k) = Inr None)
        \<longrightarrow> parseFlexibleDate clock v = Inr None"
    using parse_loop_None_iff[OF DATE_FORMATS_total[of v], where clock = clock and i = 0]
    by (simp add: parseFlexibleDate_def parseFlexibleDate_run_def)
  from parseFlexibleDate_returns[of clock v] n a b show ?thesis by (intro conjI)
qed


theorem unparseable_input_sets_message_witness:
  "inputValue \<lparr>selectedDate = \<lparr>year = 2026, month = 10, day = 2, tod = 0\<rparr>,
       inputValue = ''tomorrow'', isOpen = False, error = None\<rparr> \<noteq> []
   \<and> parseFlexibleDate (clock_at \<lparr>year = 2026, month = 10, day = 2, tod = 0\<rparr>)
        (trim ''tomorrow'') = Inr None
   \<and> handleSearch (clock_at \<lparr>year = 2026, month = 10, day = 2, tod = 0\<rparr>)
        \<lparr>selectedDate = \<lparr>year = 2026, month = 10, day = 2, tod = 0\<rparr>,
         inputValue = ''tomorrow'', isOpen = False, error = None\<rparr>
      = Inr \<lparr>selectedDate = \<lparr>year = 2026, month = 10, day = 2, tod = 0\<rparr>,
         inputValue = ''tomorrow'', isOpen = False,
         error = Some ''Invalid date. Please use a valid format.''\<rparr>"
proof -
  have t: "trim ''tomorrow'' = ''tomorrow''" by (simp add: trim_def is_whitespace_def)
  have "\<forall>f \<in> set DATE_FORMATS. \<forall>ref. parse ''tomorrow'' f ref = Inr None"
    by (simp add: DATE_FORMATS_def parse_eval del: apply_setters.simps sort_key_simps)
  then have n: "parseFlexibleDate (clock_at \<lparr>year = 2026, month = 10, day = 2, tod = 0\<rparr>)
      (trim ''tomorrow'') = Inr None"
    unfolding t by (simp add: parseFlexibleDate_def all_fail)
  from unparseable_input_sets_message[of "clock_at \<lparr>year = 2026, month = 10, day = 2, tod = 0\<rparr>" "[]"
      "\<lparr>selectedDate = \<lparr>year = 2026, month = 10, day = 2, tod = 0\<rparr>,
        inputValue = ''tomorrow'', isOpen = False, error = None\<rparr>"] n
  show ?thesis by simp
qed

theorem empty_input_sets_no_message:
  "parseFlexibleDate (clock_at \<lparr>year = 2026, month = 10, day = 2, tod = 0\<rparr>) [] = Inr None
   \<and> handleSearch (clock_at \<lparr>year = 2026, month = 10, day = 2, tod = 0\<rparr>)
        \<lparr>selectedDate = \<lparr>year = 2026, month = 10, day = 2, tod = 0\<rparr>,
         inputValue = [], isOpen = False, error = None\<rparr>
      = Inr \<lparr>selectedDate = \<lparr>year = 2026, month = 10, day = 2, tod = 0\<rparr>,
         inputValue = [], isOpen = False, error = None\<rparr>"
  by (simp add: parseFlexibleDate_def all_fail[OF fail_empty] handleSearch_def handleSearch_run_def)

subsection \<open>C10: losing focus\<close>

text \<open>
  Claim C10. When the input loses focus with non-empty text: if the trimmed text parses
  to a date \<open>d\<close>, the input text becomes \<open>d\<close> formatted as \<^verbatim>\<open>dd.MM.yyyy\<close> and the error
  is cleared; if it does not parse, the state is unchanged (no error message is set).
  In both cases the selected date is unchanged.
\<close>

theorem blur_reformats_or_leaves:
  assumes "inputValue st \<noteq> []"
  shows "(\<forall>d. parseFlexibleDate clock (trim (inputValue st)) = Inr (Some d) \<longrightarrow>
            (\<exists>txt. format d ''dd.MM.yyyy'' = Inr txt
               \<and> onBlur clock st = Inr (st\<lparr>inputValue := txt, error := None\<rparr>)))
     \<and> (parseFlexibleDate clock (trim (inputValue st)) = Inr None \<longrightarrow> onBlur clock st = Inr st)
     \<and> (\<exists>st'. onBlur clock st = Inr st' \<and> selectedDate st' = selectedDate st)"
proof -
  obtain calls r where c: "parseFlexibleDate_run clock (trim (inputValue st)) = (calls, Inr r)"
    "parseFlexibleDate clock (trim (inputValue st)) = Inr r"
    by (rule run_cases)
  show ?thesis
    using assms by (cases r) (simp_all add: onBlur_def onBlur_run_def c format_dd_MM_yyyy)
qed

theorem blur_reformats_or_leaves_witness:
  "inputValue \<lparr>selectedDate = \<lparr>year = 2026, month = 10, day = 2, tod = 0\<rparr>,
       inputValue = '' 5.3.2023 '', isOpen = False, error = Some ''Invalid date. Please use a valid format.''\<rparr> \<noteq> []
   \<and> parseFlexibleDate (clock_at \<lparr>year = 2026, month = 10, day = 2, tod = 0\<rparr>) (trim '' 5.3.2023 '')
        = Inr (Some \<lparr>year = 2023, month = 2, day = 5, tod = 0\<rparr>)
   \<and> format \<lparr>year = 2023, month = 2, day = 5, tod = 0\<rparr> ''dd.MM.yyyy'' = Inr ''05.03.2023''
   \<and> onBlur (clock_at \<lparr>year = 2026, month = 10, day = 2, tod = 0\<rparr>)
        \<lparr>selectedDate = \<lparr>year = 2026, month = 10, day = 2, tod = 0\<rparr>,
         inputValue = '' 5.3.2023 '', isOpen = False, error = Some ''Invalid date. Please use a valid format.''\<rparr>
      = Inr \<lparr>selectedDate = \<lparr>year = 2026, month = 10, day = 2, tod = 0\<rparr>,
         inputValue = ''05.03.2023'', isOpen = False, error = None\<rparr>"
proof -
  have t: "trim '' 5.3.2023 '' = ''5.3.2023''" by (simp add: trim_def is_whitespace_def)
  have "parse ''5.3.2023'' ''dd.MM.yyyy'' ref = Inr (Some \<lparr>year = 2023, month = 2, day = 5, tod = 0\<rparr>)" for ref
    by (simp add: parse_eval del: apply_setters.simps sort_key_simps)
  then have p: "parseFlexibleDate (clock_at \<lparr>year = 2026, month = 10, day = 2, tod = 0\<rparr>) (trim '' 5.3.2023 '')
        = Inr (Some \<lparr>year = 2023, month = 2, day = 5, tod = 0\<rparr>)"
    unfolding t by (simp add: run_eval)
  have f: "format \<lparr>year = 2023, month = 2, day = 5, tod = 0\<rparr> ''dd.MM.yyyy'' = Inr ''05.03.2023''"
    by (simp add: format_dd_MM_yyyy addLeadingZeros_def string_of_nat.simps[of 5]
        string_of_nat.simps[of 3] string_of_nat.simps[of 2023] string_of_nat.simps[of 202]
        string_of_nat.simps[of 20] string_of_nat.simps[of 2] digit_char_def)
  have ne: "inputValue \<lparr>selectedDate = \<lparr>year = 2026, month = 10, day = 2, tod = 0\<rparr>,
       inputValue = '' 5.3.2023 '', isOpen = False, error = Some ''Invalid date. Please use a valid format.''\<rparr> \<noteq> []"
    by simp
  from blur_reformats_or_leaves[OF ne, of "clock_at \<lparr>year = 2026, month = 10, day = 2, tod = 0\<rparr>"] p f
  show ?thesis by simp
qed

end
